theory Spec2Isabelle
  imports Main "HOL-Library.Word"
begin

section \<open>Constants of binance\_common.h\<close>

type_synonym byte = "8 word"

definition MAX_SYMBOLS :: nat where "MAX_SYMBOLS = 10"
definition MAX_SYMBOL_LENGTH :: nat where "MAX_SYMBOL_LENGTH = 16"
definition MAX_RECORDS_PER_SYMBOL :: nat where "MAX_RECORDS_PER_SYMBOL = 100"
definition SHM_SIZE :: nat where "SHM_SIZE = 64 * 1024 * 1024"

section \<open>Record types\<close>

text \<open>
  The two packed record structs. Every \<open>int64_t\<close> field is a 64-bit word; a \<open>double\<close> field
  is carried as its 64-bit IEEE pattern, because the collector and the reader only copy these
  fields and never compute with them.
\<close>

record trade_record_t =
  event_time :: "64 word"
  trade_time :: "64 word"
  price :: "64 word"
  quantity :: "64 word"
  trade_id :: "64 word"
  is_buyer_maker :: byte

record kline_record_t =
  open_time :: "64 word"
  close_time :: "64 word"
  open_price :: "64 word"
  close_price :: "64 word"
  high_price :: "64 word"
  low_price :: "64 word"
  volume :: "64 word"
  num_trades :: "64 word"
  is_final :: byte

text \<open>\<open>data_type_t\<close>: the reader tests the stored 32-bit value, so the header keeps the number.\<close>

definition DATA_TYPE_TRADE :: "32 word" where "DATA_TYPE_TRADE = 1"
definition DATA_TYPE_KLINE :: "32 word" where "DATA_TYPE_KLINE = 2"

record message_header_t =
  mh_type :: "32 word"
  mh_length :: "32 word"
  mh_timestamp :: "64 word"
  mh_symbol :: "byte list"

text \<open>
  \<open>sizeof\<close> of the packed structs on the LP64 target the program is built for: five 8-byte
  fields and one byte for a trade, eight 8-byte fields and one byte for a kline (the sizes in the
  header's comments, 33 and 57, are not what \<open>sizeof\<close> yields), and 4 + 4 + 8 + 16 bytes for
  the message header. \<open>shared_memory_header_t\<close> has 200 bytes of fields and is aligned to 64.
\<close>

definition sizeof_trade_record_t :: nat where "sizeof_trade_record_t = 41"
definition sizeof_kline_record_t :: nat where "sizeof_kline_record_t = 65"
definition sizeof_message_header_t :: nat where "sizeof_message_header_t = 32"
definition sizeof_size_t :: nat where "sizeof_size_t = 8"
definition sizeof_shared_memory_header_t :: nat where "sizeof_shared_memory_header_t = 256"

section \<open>The circular buffers of \<open>symbol_data_t.recent_data\<close>\<close>

text \<open>
  \<open>recent_data.trades\<close> and \<open>recent_data.klines\<close> are the same anonymous struct up to the
  record type: two arrays of \<open>MAX_RECORDS_PER_SYMBOL\<close> entries, \<open>count\<close> and \<open>next_index\<close>.
\<close>

record 'r ring =
  records :: "'r list"
  headers :: "message_header_t list"
  count :: nat
  next_index :: nat

definition zero_trade :: trade_record_t where
  "zero_trade = \<lparr>event_time = 0, trade_time = 0, price = 0, quantity = 0, trade_id = 0,
     is_buyer_maker = 0\<rparr>"

definition zero_kline :: kline_record_t where
  "zero_kline = \<lparr>open_time = 0, close_time = 0, open_price = 0, close_price = 0,
     high_price = 0, low_price = 0, volume = 0, num_trades = 0, is_final = 0\<rparr>"

definition zero_header :: message_header_t where
  "zero_header = \<lparr>mh_type = 0, mh_length = 0, mh_timestamp = 0,
     mh_symbol = replicate MAX_SYMBOL_LENGTH 0\<rparr>"

text \<open>The state \<open>memset(&symbol->recent_data, 0, ...)\<close> leaves in one buffer.\<close>

definition zero_ring :: "'r \<Rightarrow> 'r ring" where
  "zero_ring z = \<lparr>records = replicate MAX_RECORDS_PER_SYMBOL z,
     headers = replicate MAX_RECORDS_PER_SYMBOL zero_header, count = 0, next_index = 0\<rparr>"

text \<open>
  \<open>strncpy(header.symbol, symbol, MAX_SYMBOL_LENGTH - 1); header.symbol[MAX_SYMBOL_LENGTH - 1] = 0\<close>
  on a C string (a byte list without NUL): at most 15 bytes are copied and the rest of the
  16-byte array is NUL.
\<close>

definition symbol_field :: "byte list \<Rightarrow> byte list" where
  "symbol_field s = take (MAX_SYMBOL_LENGTH - 1) s @
     replicate (MAX_SYMBOL_LENGTH - length (take (MAX_SYMBOL_LENGTH - 1) s)) 0"

text \<open>
  The locked block of \<open>handle_aggTrade\<close> and \<open>handle_kline\<close> (lines 278--299 and 377--398):
  store record and header at \<open>next_index\<close>, advance it modulo the capacity, and count up to
  the capacity.
\<close>

definition ring_store :: "'r \<Rightarrow> message_header_t \<Rightarrow> 'r ring \<Rightarrow> 'r ring" where
  "ring_store record header r =
     (let idx = next_index r in
      r\<lparr>records := (records r)[idx := record],
        headers := (headers r)[idx := header],
        next_index := (idx + 1) mod MAX_RECORDS_PER_SYMBOL,
        count := (if count r < MAX_RECORDS_PER_SYMBOL then count r + 1 else count r)\<rparr>)"

text \<open>
  The chronological walk of \<open>update_shared_memory\<close> (lines 533--537 and 563--567): the start
  index, and the slot visited at step \<open>j\<close>.
\<close>

definition start_idx :: "'r ring \<Rightarrow> nat" where
  "start_idx r = (if count r \<ge> MAX_RECORDS_PER_SYMBOL then next_index r else 0)"

definition walk_idx :: "'r ring \<Rightarrow> nat \<Rightarrow> nat" where
  "walk_idx r j = (start_idx r + j) mod MAX_RECORDS_PER_SYMBOL"

definition chrono :: "'r ring \<Rightarrow> nat \<Rightarrow> (message_header_t \<times> 'r) list" where
  "chrono r n = map (\<lambda>j. (headers r ! walk_idx r j, records r ! walk_idx r j)) [0..<n]"


section \<open>Collector state and ingestion\<close>

text \<open>
  A log file behind a \<open>FILE *\<close>: the items \<open>fwrite\<close> has taken that are still in the buffer of
  the stream, and the items that have been written to the file. \<open>fwrite\<close> is the call that
  returns 1: the item is taken into the buffer. \<open>fflush\<close> writes the buffer to the file when
  the write succeeds and returns \<open>EOF\<close> otherwise; what a failed \<open>fflush\<close> leaves in the buffer
  is not specified by C, here the buffer is kept.
\<close>

record 'r FILE =
  buffered :: "'r list"
  on_disk :: "'r list"

definition fwrite :: "'r \<Rightarrow> 'r FILE \<Rightarrow> 'r FILE" where
  "fwrite x f = f\<lparr>buffered := buffered f @ [x]\<rparr>"

definition fflush :: "bool \<Rightarrow> 'r FILE \<Rightarrow> 'r FILE" where
  "fflush ok f = (if ok then \<lparr>buffered = [], on_disk = on_disk f @ buffered f\<rparr> else f)"

text \<open>
  \<open>symbol_data_t\<close>. \<open>name\<close> is the C string held in the 16-byte array, \<open>trade_file\<close> and
  \<open>kline_file\<close> are the two streams opened by \<open>main\<close>. The counters are
  \<open>atomic_uint_fast64_t\<close>.
\<close>

record symbol_data_t =
  name :: "byte list"
  trade_file :: "trade_record_t FILE"
  kline_file :: "kline_record_t FILE"
  trades :: "trade_record_t ring"
  klines :: "kline_record_t ring"
  trade_count :: "64 word"
  kline_count :: "64 word"
  message_count :: "64 word"
  bytes_processed :: "64 word"

text \<open>
  The mapped region: its bytes by offset from \<open>shared_memory\<close>, and the list of the stores
  made into it, in program order, each as (offset, number of bytes).
\<close>

type_synonym memory = "nat \<Rightarrow> byte"

record shm_t =
  shm_bytes :: memory
  shm_trace :: "(nat \<times> nat) list"

text \<open>
  The globals of the collector: \<open>symbols\<close> (its first \<open>symbol_count\<close> entries, so
  \<open>symbol_count\<close> is the length of the list), \<open>shm_header\<close> (set or NULL), the region and
  the static \<open>last_update_time\<close>.
\<close>

record collector =
  symbols :: "symbol_data_t list"
  shm_header_set :: bool
  shm :: shm_t
  last_update_time :: int

text \<open>\<open>init_symbol_data\<close>: the buffers are zeroed and the counters reset.\<close>

definition init_symbol_data :: "symbol_data_t \<Rightarrow> symbol_data_t" where
  "init_symbol_data symbol =
     symbol\<lparr>trades := zero_ring zero_trade, klines := zero_ring zero_kline,
       trade_count := 0, kline_count := 0, message_count := 0, bytes_processed := 0\<rparr>"

text \<open>
  The lookup loop at the head of both handlers: the first index whose name is \<open>strcmp\<close>-equal
  to the symbol, or \<open>-1\<close> (here \<open>None\<close>).
\<close>

fun find_symbol :: "nat \<Rightarrow> symbol_data_t list \<Rightarrow> byte list \<Rightarrow> nat option" where
  "find_symbol i [] symbol = None"
| "find_symbol i (x # xs) symbol =
     (if name x = symbol then Some i else find_symbol (Suc i) xs symbol)"

text \<open>
  The header built in lines 284--289 and 383--388: type, \<open>sizeof(record)\<close>, \<open>time(NULL)\<close>
  and the symbol copied with \<open>strncpy\<close>.
\<close>

definition trade_header :: "byte list \<Rightarrow> int \<Rightarrow> message_header_t" where
  "trade_header symbol now = \<lparr>mh_type = DATA_TYPE_TRADE,
     mh_length = of_nat sizeof_trade_record_t, mh_timestamp = word_of_int now,
     mh_symbol = symbol_field symbol\<rparr>"

definition kline_header :: "byte list \<Rightarrow> int \<Rightarrow> message_header_t" where
  "kline_header symbol now = \<lparr>mh_type = DATA_TYPE_KLINE,
     mh_length = of_nat sizeof_kline_record_t, mh_timestamp = word_of_int now,
     mh_symbol = symbol_field symbol\<rparr>"

text \<open>
  \<open>handle_aggTrade\<close>, from the point where the record has been extracted from the message.
  \<open>fwrite_ok\<close> says whether \<open>fwrite\<close> returned 1, \<open>fflush_ok\<close> whether the \<open>fflush\<close> of line 305
  succeeded (the code ignores its result), \<open>now\<close> is the value of \<open>time(NULL)\<close>. The messages
  on stderr leave the state alone. An \<open>fwrite\<close> that does not return 1 is taken to leave the
  stream as it was. For an unknown symbol the function returns before both calls.
\<close>

definition handle_aggTrade ::
    "trade_record_t \<Rightarrow> byte list \<Rightarrow> bool \<Rightarrow> bool \<Rightarrow> int \<Rightarrow> collector \<Rightarrow> collector" where
  "handle_aggTrade record symbol fwrite_ok fflush_ok now c =
     (case find_symbol 0 (symbols c) symbol of
        None \<Rightarrow> c
      | Some symbol_idx \<Rightarrow>
          let symb = symbols c ! symbol_idx;
              header = trade_header symbol now;
              symb1 =
                (if \<not> fwrite_ok then symb
                 else symb
                   \<lparr>trade_file := fwrite record (trade_file symb),
                    trade_count := trade_count symb + 1,
                    message_count := message_count symb + 1,
                    bytes_processed := bytes_processed symb + of_nat sizeof_trade_record_t,
                    trades := ring_store record header (trades symb)\<rparr>)
          in c\<lparr>symbols := (symbols c)[symbol_idx :=
                 symb1\<lparr>trade_file := fflush fflush_ok (trade_file symb1)\<rparr>]\<rparr>)"

text \<open>
  \<open>handle_kline\<close>, likewise; \<open>k_obj\<close> is the record extracted from the \<open>"k"\<close> object of the
  message, \<open>None\<close> when the message has none (the function then returns before \<open>fwrite\<close> and
  \<open>fflush\<close>).
\<close>

definition handle_kline ::
    "kline_record_t option \<Rightarrow> byte list \<Rightarrow> bool \<Rightarrow> bool \<Rightarrow> int \<Rightarrow> collector \<Rightarrow> collector" where
  "handle_kline k_obj symbol fwrite_ok fflush_ok now c =
     (case find_symbol 0 (symbols c) symbol of
        None \<Rightarrow> c
      | Some symbol_idx \<Rightarrow>
          (case k_obj of
             None \<Rightarrow> c
           | Some record \<Rightarrow>
               let symb = symbols c ! symbol_idx;
                   header = kline_header symbol now;
                   symb1 =
                     (if \<not> fwrite_ok then symb
                      else symb
                        \<lparr>kline_file := fwrite record (kline_file symb),
                         kline_count := kline_count symb + 1,
                         message_count := message_count symb + 1,
                         bytes_processed := bytes_processed symb + of_nat sizeof_kline_record_t,
                         klines := ring_store record header (klines symb)\<rparr>)
               in c\<lparr>symbols := (symbols c)[symbol_idx :=
                      symb1\<lparr>kline_file := fflush fflush_ok (kline_file symb1)\<rparr>]\<rparr>))"

text \<open>A run of appends into one buffer, starting from the zeroed buffer.\<close>

definition ring_appends :: "'r \<Rightarrow> (message_header_t \<times> 'r) list \<Rightarrow> 'r ring" where
  "ring_appends z xs = foldl (\<lambda>r (h, x). ring_store x h r) (zero_ring z) xs"


section \<open>Bytes in the region\<close>

text \<open>
  \<open>size_t\<close> is 64 bits wide. Values of that type are natural numbers below \<open>2 ^ 64\<close>, and
  the three operations wrap around as the unsigned arithmetic of C does.
\<close>

definition size_add :: "nat \<Rightarrow> nat \<Rightarrow> nat" where
  "size_add a b = (a + b) mod 2 ^ 64"

definition size_sub :: "nat \<Rightarrow> nat \<Rightarrow> nat" where
  "size_sub a b = (a + 2 ^ 64 - b mod 2 ^ 64) mod 2 ^ 64"

definition size_mul :: "nat \<Rightarrow> nat \<Rightarrow> nat" where
  "size_mul a b = (a * b) mod 2 ^ 64"

text \<open>Little-endian layout of an unsigned value in \<open>n\<close> bytes, as on the x86-64 target.\<close>

primrec le_bytes :: "nat \<Rightarrow> nat \<Rightarrow> byte list" where
  "le_bytes 0 v = []"
| "le_bytes (Suc n) v = of_nat (v mod 256) # le_bytes n (v div 256)"

primrec le_nat :: "byte list \<Rightarrow> nat" where
  "le_nat [] = 0"
| "le_nat (b # bs) = unat b + 256 * le_nat bs"

definition enc64 :: "64 word \<Rightarrow> byte list" where
  "enc64 w = le_bytes 8 (unat w)"

definition dec64 :: "byte list \<Rightarrow> 64 word" where
  "dec64 bs = of_nat (le_nat bs)"

definition enc32 :: "32 word \<Rightarrow> byte list" where
  "enc32 w = le_bytes 4 (unat w)"

definition dec32 :: "byte list \<Rightarrow> 32 word" where
  "dec32 bs = of_nat (le_nat bs)"

text \<open>The object representation of the three structs that \<open>memcpy\<close> moves.\<close>

definition encode_header :: "message_header_t \<Rightarrow> byte list" where
  "encode_header h = enc32 (mh_type h) @ enc32 (mh_length h) @ enc64 (mh_timestamp h) @
     take MAX_SYMBOL_LENGTH (mh_symbol h @ replicate MAX_SYMBOL_LENGTH 0)"

definition encode_trade :: "trade_record_t \<Rightarrow> byte list" where
  "encode_trade r = enc64 (event_time r) @ enc64 (trade_time r) @ enc64 (price r) @
     enc64 (quantity r) @ enc64 (trade_id r) @ [is_buyer_maker r]"

definition encode_kline :: "kline_record_t \<Rightarrow> byte list" where
  "encode_kline r = enc64 (open_time r) @ enc64 (close_time r) @ enc64 (open_price r) @
     enc64 (close_price r) @ enc64 (high_price r) @ enc64 (low_price r) @ enc64 (volume r) @
     enc64 (num_trades r) @ [is_final r]"

text \<open>Reading \<open>n\<close> bytes at an offset, and \<open>memcpy\<close> of a byte list to an offset.\<close>

definition load :: "memory \<Rightarrow> nat \<Rightarrow> nat \<Rightarrow> byte list" where
  "load m a n = map m [a..<a + n]"

definition memcpy :: "memory \<Rightarrow> nat \<Rightarrow> byte list \<Rightarrow> memory" where
  "memcpy m dst bs = (\<lambda>a. if dst \<le> a \<and> a < dst + length bs then bs ! (a - dst) else m a)"

definition store :: "nat \<Rightarrow> byte list \<Rightarrow> shm_t \<Rightarrow> shm_t" where
  "store dst bs s = \<lparr>shm_bytes = memcpy (shm_bytes s) dst bs,
     shm_trace = shm_trace s @ [(dst, length bs)]\<rparr>"

text \<open>
  The fields of \<open>shared_memory_header_t\<close> at the start of the region: \<open>write_counter\<close> at 0,
  \<open>last_update_time\<close> at 8, \<open>data_offset\<close> at 16, \<open>buffer_size\<close> at 24, \<open>symbol_count\<close> at 32
  and \<open>symbols[i]\<close> at \<open>40 + 16 * i\<close>.
\<close>

definition off_write_counter :: nat where "off_write_counter = 0"
definition off_last_update_time :: nat where "off_last_update_time = 8"
definition off_data_offset :: nat where "off_data_offset = 16"
definition off_buffer_size :: nat where "off_buffer_size = 24"
definition off_symbol_count :: nat where "off_symbol_count = 32"
definition off_symbols :: "nat \<Rightarrow> nat" where "off_symbols i = 40 + MAX_SYMBOL_LENGTH * i"

definition rd_size_t :: "memory \<Rightarrow> nat \<Rightarrow> nat" where
  "rd_size_t m a = le_nat (load m a sizeof_size_t)"

definition enc_size_t :: "nat \<Rightarrow> byte list" where
  "enc_size_t v = le_bytes sizeof_size_t v"

section \<open>The snapshot publisher\<close>

text \<open>
  \<open>init_shared_memory\<close> on the path where \<open>shm_open\<close>, \<open>ftruncate\<close> and \<open>mmap\<close> succeed;
  \<open>m0\<close> is the content of the mapped object and \<open>now\<close> the value of \<open>time(NULL)\<close>.
\<close>

fun copy_symbol_names :: "symbol_data_t list \<Rightarrow> nat \<Rightarrow> shm_t \<Rightarrow> shm_t" where
  "copy_symbol_names [] i s = s"
| "copy_symbol_names (x # xs) i s =
     copy_symbol_names xs (Suc i) (store (off_symbols i) (symbol_field (name x)) s)"

definition init_shared_memory :: "memory \<Rightarrow> int \<Rightarrow> collector \<Rightarrow> collector" where
  "init_shared_memory m0 now c =
     (let s0 = \<lparr>shm_bytes = m0, shm_trace = []\<rparr>;
          s1 = store off_write_counter (enc64 0) s0;
          s2 = store off_last_update_time (enc64 (word_of_int now)) s1;
          s3 = store off_data_offset (enc_size_t sizeof_shared_memory_header_t) s2;
          s4 = store off_buffer_size
                 (enc_size_t (size_sub SHM_SIZE (rd_size_t (shm_bytes s3) off_data_offset)
                    div MAX_SYMBOLS)) s3;
          s5 = store off_symbol_count (enc_size_t (length (symbols c))) s4
      in c\<lparr>shm_header_set := True, shm := copy_symbol_names (symbols c) 0 s5\<rparr>)"

text \<open>
  The two copy loops of \<open>update_shared_memory\<close> (lines 536--550 and 566--580) differ in the
  record type only. \<open>js\<close> is the range of the loop counter; the result is the final
  \<open>current_offset\<close> and the region.
\<close>

fun write_frames ::
    "('r \<Rightarrow> byte list) \<Rightarrow> nat \<Rightarrow> 'r ring \<Rightarrow> nat list \<Rightarrow> nat \<Rightarrow> shm_t \<Rightarrow> nat \<times> shm_t" where
  "write_frames enc sz r [] current_offset s = (current_offset, s)"
| "write_frames enc sz r (j # js) current_offset s =
     (let idx = walk_idx r j;
          s1 = store current_offset (encode_header (headers r ! idx)) s;
          off1 = size_add current_offset sizeof_message_header_t;
          s2 = store off1 (take sz (enc (records r ! idx))) s1;
          off2 = size_add off1 sz
      in write_frames enc sz r js off2 s2)"

definition trade_frame_size :: nat where
  "trade_frame_size = size_add sizeof_message_header_t sizeof_trade_record_t"

definition kline_frame_size :: nat where
  "kline_frame_size = size_add sizeof_message_header_t sizeof_kline_record_t"

text \<open>Lines 501--515: the size announced for the slot.\<close>

definition total_data_size :: "symbol_data_t \<Rightarrow> nat \<Rightarrow> nat" where
  "total_data_size symb buffer_size =
     (let trade_data_size = size_mul (count (trades symb)) trade_frame_size;
          kline_data_size = size_mul (count (klines symb)) kline_frame_size;
          total = size_add trade_data_size kline_data_size
      in if total > size_sub buffer_size sizeof_size_t
         then size_sub buffer_size sizeof_size_t else total)"

text \<open>Lines 524--530 and 553--560: how many frames of each kind are copied.\<close>

definition trades_to_write :: "symbol_data_t \<Rightarrow> nat \<Rightarrow> nat" where
  "trades_to_write symb total_size =
     (if size_mul (count (trades symb)) trade_frame_size > total_size
      then total_size div trade_frame_size else count (trades symb))"

definition trade_bytes :: "symbol_data_t \<Rightarrow> nat \<Rightarrow> nat" where
  "trade_bytes symb total_size = size_mul (trades_to_write symb total_size) trade_frame_size"

definition klines_to_write :: "symbol_data_t \<Rightarrow> nat \<Rightarrow> nat" where
  "klines_to_write symb total_size =
     (let remaining_space = size_sub total_size (trade_bytes symb total_size)
      in if size_mul (count (klines symb)) kline_frame_size > remaining_space
         then remaining_space div kline_frame_size else count (klines symb))"

definition kline_bytes :: "symbol_data_t \<Rightarrow> nat \<Rightarrow> nat" where
  "kline_bytes symb total_size = size_mul (klines_to_write symb total_size) kline_frame_size"

text \<open>The body of the loop over the symbols (lines 490--582), for the symbol at index \<open>i\<close>.\<close>

definition update_symbol :: "symbol_data_t \<Rightarrow> nat \<Rightarrow> shm_t \<Rightarrow> shm_t" where
  "update_symbol symb i s =
     (let data_offset = rd_size_t (shm_bytes s) off_data_offset;
          buffer_size = rd_size_t (shm_bytes s) off_buffer_size;
          symbol_offset = size_add data_offset (size_mul i buffer_size)
      in if size_add symbol_offset sizeof_size_t > SHM_SIZE then s
         else
           let total_size = total_data_size symb buffer_size;
               s1 = store symbol_offset (enc_size_t total_size) s;
               current_offset = size_add symbol_offset sizeof_size_t;
               (off1, s2) = write_frames encode_trade sizeof_trade_record_t (trades symb)
                              [0..<trades_to_write symb total_size] current_offset s1;
               (off2, s3) = write_frames encode_kline sizeof_kline_record_t (klines symb)
                              [0..<klines_to_write symb total_size] off1 s2
           in s3)"

fun update_symbols :: "symbol_data_t list \<Rightarrow> nat \<Rightarrow> shm_t \<Rightarrow> shm_t" where
  "update_symbols [] i s = s"
| "update_symbols (symb # syms) i s = update_symbols syms (Suc i) (update_symbol symb i s)"

text \<open>
  \<open>update_shared_memory\<close>; \<open>now\<close> is the value of \<open>time(NULL)\<close>. The store into
  \<open>last_update_time\<close> of the header comes first, then the test against the static
  \<open>last_update_time\<close>, then the slots, then the increment of \<open>write_counter\<close>.
\<close>

definition update_shared_memory :: "int \<Rightarrow> collector \<Rightarrow> collector" where
  "update_shared_memory now c =
     (if \<not> shm_header_set c then c
      else
        let s1 = store off_last_update_time (enc64 (word_of_int now)) (shm c)
        in if now - last_update_time c < 1 then c\<lparr>shm := s1\<rparr>
           else
             let s2 = update_symbols (symbols c) 0 s1;
                 s3 = store off_write_counter
                        (enc64 (dec64 (load (shm_bytes s2) off_write_counter 8) + 1)) s2
             in c\<lparr>shm := s3, last_update_time := now\<rparr>)"


section \<open>The shared region reader\<close>

text \<open>
  \<open>tolower\<close> in the C locale (the reader never calls \<open>setlocale\<close>), on a byte.
\<close>

definition tolower :: "byte \<Rightarrow> byte" where
  "tolower b = (if 65 \<le> b \<and> b \<le> 90 then b + 32 else b)"

text \<open>
  \<open>strcasecmp(p, symbol)\<close> for a pointer \<open>p\<close> into the region (offset \<open>a\<close>) and a C string
  \<open>symbol\<close>: whether the result is 0, and how many bytes at \<open>p\<close> the comparison reads. The
  comparison stops at the first difference or at the terminating NUL.
\<close>

fun strcasecmp_mem :: "memory \<Rightarrow> nat \<Rightarrow> byte list \<Rightarrow> bool \<times> nat" where
  "strcasecmp_mem m a [] = (m a = 0, 1)"
| "strcasecmp_mem m a (c # cs) =
     (if tolower (m a) \<noteq> tolower c then (False, 1)
      else if c = 0 then (True, 1)
      else (fst (strcasecmp_mem m (a + 1) cs), Suc (snd (strcasecmp_mem m (a + 1) cs))))"

text \<open>
  The length of the C string at offset \<open>a\<close>, as \<open>printf("%s")\<close> scans for it; \<open>None\<close> when
  there is no NUL before the end of the mapping.
\<close>

primrec scan_nul :: "memory \<Rightarrow> nat \<Rightarrow> nat \<Rightarrow> nat option" where
  "scan_nul m a 0 = None"
| "scan_nul m a (Suc k) = (if m a = 0 then Some 0 else map_option Suc (scan_nul m (a + 1) k))"

definition cstr_len :: "memory \<Rightarrow> nat \<Rightarrow> nat option" where
  "cstr_len m a = scan_nul m a (SHM_SIZE - a)"

text \<open>Reading the fields of a packed record through a pointer into the region.\<close>

definition decode_trade :: "byte list \<Rightarrow> trade_record_t" where
  "decode_trade bs = \<lparr>event_time = dec64 (take 8 bs), trade_time = dec64 (take 8 (drop 8 bs)),
     price = dec64 (take 8 (drop 16 bs)), quantity = dec64 (take 8 (drop 24 bs)),
     trade_id = dec64 (take 8 (drop 32 bs)), is_buyer_maker = bs ! 40\<rparr>"

definition decode_kline :: "byte list \<Rightarrow> kline_record_t" where
  "decode_kline bs = \<lparr>open_time = dec64 (take 8 bs), close_time = dec64 (take 8 (drop 8 bs)),
     open_price = dec64 (take 8 (drop 16 bs)), close_price = dec64 (take 8 (drop 24 bs)),
     high_price = dec64 (take 8 (drop 32 bs)), low_price = dec64 (take 8 (drop 40 bs)),
     volume = dec64 (take 8 (drop 48 bs)), num_trades = dec64 (take 8 (drop 56 bs)),
     is_final = bs ! 64\<rparr>"

text \<open>
  What \<open>display_symbol_data\<close> does, in program order: every read of the region by the
  code of the function as \<open>Rd offset length\<close>, the bytes \<open>printf\<close> reads for a \<open>%s\<close> of
  \<open>header->symbol\<close> as \<open>Scan offset length\<close>, every line it prints, and \<open>Fault\<close> for a
  read outside the \<open>SHM_SIZE\<close> bytes that are mapped, which ends the process. \<open>Trade\<close>,
  \<open>Kline\<close>, \<open>Mismatched_symbol\<close> and \<open>Unknown_type\<close> carry the offset of the frame's
  header in the slot's data; \<open>Trade\<close> and \<open>Kline\<close> carry the record as printed,
  \<open>Mismatched_symbol\<close> the string printed for \<open>header->symbol\<close>.
\<close>

datatype item =
    Rd nat nat
  | Scan nat nat
  | Fault
  | Symbol_not_found
  | Offset_outside nat
  | Cant_read_size nat
  | Data_size nat
  | No_data
  | Size_too_large nat nat
  | Data_for
  | Incomplete_header nat
  | Mismatched_symbol nat "byte list"
  | Trade nat trade_record_t
  | Invalid_trade_length "32 word" nat
  | Kline nat kline_record_t
  | Invalid_kline_length "32 word" nat
  | Unknown_type "32 word" nat
  | No_valid_records
  | More_records int nat

text \<open>\<open>(offset + 7) & ~7\<close> on \<open>size_t\<close>.\<close>

definition align8 :: "nat \<Rightarrow> nat" where
  "align8 offset = (size_add offset 7 div 8) * 8"

text \<open>Lines 388--393, after the loop.\<close>

definition after_loop :: "nat \<Rightarrow> nat \<Rightarrow> int \<Rightarrow> item list" where
  "after_loop data_size offset record_count =
     (if record_count = 0 then [No_valid_records]
      else if offset < data_size then [More_records record_count (data_size div trade_frame_size)]
      else [])"

text \<open>
  The loop of lines 321--386. \<open>base\<close> is \<open>symbol_offset\<close> after the size field has been
  skipped. Each way out of the loop is followed by the code after it. The addresses
  \<open>shared_memory + symbol_offset + offset\<close> are not reduced modulo \<open>2 ^ 64\<close>: an address past
  the mapping is a fault.
\<close>

function walk :: "memory \<Rightarrow> byte list \<Rightarrow> nat \<Rightarrow> nat \<Rightarrow> int \<Rightarrow> nat \<Rightarrow> int \<Rightarrow> item list" where
  "walk m symbol base data_size max_records offset record_count =
     (if \<not> (offset < data_size \<and> record_count < max_records)
      then after_loop data_size offset record_count
      else if size_add offset sizeof_message_header_t > data_size
      then Incomplete_header offset # after_loop data_size offset record_count
      else
        let header = base + offset;
            offset1 = size_add offset sizeof_message_header_t;
            cmp = strcasecmp_mem m (header + 16) symbol
        in if header + 16 + snd cmp > SHM_SIZE then [Rd (header + 16) (snd cmp), Fault]
           else if \<not> fst cmp then
             (case cstr_len m (header + 16) of
                None \<Rightarrow> [Rd (header + 16) (snd cmp), Scan (header + 16) (SHM_SIZE - (header + 16)), Fault]
              | Some k \<Rightarrow>
                  Rd (header + 16) (snd cmp) # Scan (header + 16) (Suc k) #
                  Mismatched_symbol offset (load m (header + 16) k) #
                  walk m symbol base data_size max_records (align8 offset1) record_count)
           else
             let type = dec32 (load m header 4)
             in if type = DATA_TYPE_TRADE then
                  let len = dec32 (load m (header + 4) 4)
                  in if size_add offset1 (unat len) > data_size \<or>
                        unat len \<noteq> sizeof_trade_record_t
                     then [Rd (header + 16) (snd cmp), Rd header 4, Rd (header + 4) 4,
                           Invalid_trade_length len offset1] @
                          after_loop data_size offset1 record_count
                     else if base + offset1 + sizeof_trade_record_t > SHM_SIZE
                     then [Rd (header + 16) (snd cmp), Rd header 4, Rd (header + 4) 4,
                           Rd (base + offset1) sizeof_trade_record_t, Fault]
                     else
                       Rd (header + 16) (snd cmp) # Rd header 4 # Rd (header + 4) 4 #
                       Rd (base + offset1) sizeof_trade_record_t #
                       Trade offset (decode_trade (load m (base + offset1) sizeof_trade_record_t)) #
                       walk m symbol base data_size max_records
                         (size_add offset1 (unat len)) (record_count + 1)
                else if type = DATA_TYPE_KLINE then
                  let len = dec32 (load m (header + 4) 4)
                  in if size_add offset1 (unat len) > data_size \<or>
                        unat len \<noteq> sizeof_kline_record_t
                     then [Rd (header + 16) (snd cmp), Rd header 4, Rd (header + 4) 4,
                           Invalid_kline_length len offset1] @
                          after_loop data_size offset1 record_count
                     else if base + offset1 + sizeof_kline_record_t > SHM_SIZE
                     then [Rd (header + 16) (snd cmp), Rd header 4, Rd (header + 4) 4,
                           Rd (base + offset1) sizeof_kline_record_t, Fault]
                     else
                       Rd (header + 16) (snd cmp) # Rd header 4 # Rd (header + 4) 4 #
                       Rd (base + offset1) sizeof_kline_record_t #
                       Kline offset (decode_kline (load m (base + offset1) sizeof_kline_record_t)) #
                       walk m symbol base data_size max_records
                         (size_add offset1 (unat len)) (record_count + 1)
                else
                  Rd (header + 16) (snd cmp) # Rd header 4 #
                  Unknown_type type offset #
                  walk m symbol base data_size max_records (align8 offset1) record_count)"
  by pat_completeness auto

lemma strcasecmp_mem_reads: "1 \<le> snd (strcasecmp_mem m a s)"
  by (induction s arbitrary: a) auto

lemma align8_ge: "x + 7 < 2 ^ 64 \<Longrightarrow> x \<le> align8 x"
  unfolding align8_def size_add_def by simp

lemma walk_offset_small:
  assumes "base + offset + 16 + n \<le> SHM_SIZE" "1 \<le> n"
  shows "size_add offset sizeof_message_header_t = offset + 32" "offset < SHM_SIZE"
  using assms by (simp_all add: size_add_def sizeof_message_header_t_def SHM_SIZE_def)

lemma align8_gt:
  assumes "offset < SHM_SIZE"
  shows "offset < align8 (offset + 32)"
proof -
  have "offset + 32 + 7 < 2 ^ 64" using assms by (simp add: SHM_SIZE_def)
  from align8_ge [OF this] show ?thesis by simp
qed

termination walk
proof (relation "measure (\<lambda>(m, symbol, base, data_size, max_records, offset, record_count).
                   SHM_SIZE - offset)", goal_cases)
  case 1
  show ?case by simp
next
  case (2 m symbol base data_size max_records offset record_count header offset1 cmp k)
  have n: "1 \<le> snd cmp" unfolding 2 by (rule strcasecmp_mem_reads)
  from 2 have "base + offset + 16 + snd cmp \<le> SHM_SIZE" by simp
  from walk_offset_small [OF this n] align8_gt [of offset]
  show ?case unfolding 2 by simp
next
  case (3 m symbol base data_size max_records offset record_count header offset1 cmp type len)
  have n: "1 \<le> snd cmp" unfolding 3 by (rule strcasecmp_mem_reads)
  from 3 have "base + offset + 16 + snd cmp \<le> SHM_SIZE" by simp
  note small = walk_offset_small [OF this n]
  from 3 small have o1: "offset1 = offset + 32" by simp
  from 3 have "unat len = sizeof_trade_record_t" by simp
  with small o1 show ?case
    by (simp add: size_add_def sizeof_trade_record_t_def SHM_SIZE_def)
next
  case (4 m symbol base data_size max_records offset record_count header offset1 cmp type len)
  have n: "1 \<le> snd cmp" unfolding 4 by (rule strcasecmp_mem_reads)
  from 4 have "base + offset + 16 + snd cmp \<le> SHM_SIZE" by simp
  note small = walk_offset_small [OF this n]
  from 4 small have o1: "offset1 = offset + 32" by simp
  from 4 have "unat len = sizeof_kline_record_t" by simp
  with small o1 show ?case
    by (simp add: size_add_def sizeof_kline_record_t_def SHM_SIZE_def)
next
  case (5 m symbol base data_size max_records offset record_count header offset1 cmp type)
  have n: "1 \<le> snd cmp" unfolding 5 by (rule strcasecmp_mem_reads)
  from 5 have "base + offset + 16 + snd cmp \<le> SHM_SIZE" by simp
  from walk_offset_small [OF this n] align8_gt [of offset]
  show ?case unfolding 5 by simp
qed

text \<open>
  The lookup loop of lines 267--273 over the directory of the header, \<open>n\<close> being
  \<open>shm_header->symbol_count\<close>.
\<close>

datatype lookup = Found nat | Not_found | Lookup_fault

function lookup_symbol :: "memory \<Rightarrow> byte list \<Rightarrow> nat \<Rightarrow> nat \<Rightarrow> lookup" where
  "lookup_symbol m symbol n i =
     (if i < n then
        let cmp = strcasecmp_mem m (off_symbols i) symbol
        in if off_symbols i + snd cmp > SHM_SIZE then Lookup_fault
           else if fst cmp then Found i
           else lookup_symbol m symbol n (i + 1)
      else Not_found)"
  by pat_completeness auto
termination
  by (relation "measure (\<lambda>(m, symbol, n, i). n - i)") auto

text \<open>\<open>display_symbol_data\<close>, with \<open>max_records\<close> the global of that name.\<close>

definition display_symbol_data :: "memory \<Rightarrow> byte list \<Rightarrow> int \<Rightarrow> item list" where
  "display_symbol_data m symbol max_records =
     (case lookup_symbol m symbol (rd_size_t m off_symbol_count) 0 of
        Lookup_fault \<Rightarrow> [Fault]
      | Not_found \<Rightarrow> [Symbol_not_found]
      | Found symbol_idx \<Rightarrow>
          let data_offset = rd_size_t m off_data_offset;
              buffer_size = rd_size_t m off_buffer_size;
              symbol_offset = size_add data_offset (size_mul symbol_idx buffer_size)
          in if symbol_offset \<ge> SHM_SIZE then [Offset_outside symbol_offset]
             else if size_add symbol_offset sizeof_size_t > SHM_SIZE
             then [Cant_read_size symbol_offset]
             else
               let data_size = rd_size_t m symbol_offset
               in if data_size = 0 then [Rd symbol_offset sizeof_size_t, Data_size data_size, No_data]
                  else if data_size > size_sub buffer_size sizeof_size_t
                  then [Rd symbol_offset sizeof_size_t, Data_size data_size,
                        Size_too_large data_size (size_sub buffer_size sizeof_size_t)]
                  else
                    Rd symbol_offset sizeof_size_t # Data_size data_size # Data_for #
                    walk m symbol (size_add symbol_offset sizeof_size_t) data_size
                      max_records 0 0)"

declare walk.simps [simp del]
declare lookup_symbol.simps [simp del]


text \<open>
  One iteration of the loop of lines 321--386, with the test of the \<open>while\<close>: either the loop
  is left (\<open>Stop\<close>, with what is printed up to the end of the function), or the next iteration
  starts at a new \<open>offset\<close> and \<open>record_count\<close> (\<open>Continue\<close>). \<open>walk\<close> is the iteration of
  this step.
\<close>

datatype step = Stop "item list" | Continue "item list" nat int

definition walk_step ::
    "memory \<Rightarrow> byte list \<Rightarrow> nat \<Rightarrow> nat \<Rightarrow> int \<Rightarrow> nat \<Rightarrow> int \<Rightarrow> step" where
  "walk_step m symbol base data_size max_records offset record_count =
     (if \<not> (offset < data_size \<and> record_count < max_records)
      then Stop (after_loop data_size offset record_count)
      else if size_add offset sizeof_message_header_t > data_size
      then Stop (Incomplete_header offset # after_loop data_size offset record_count)
      else
        let header = base + offset;
            offset1 = size_add offset sizeof_message_header_t;
            cmp = strcasecmp_mem m (header + 16) symbol
        in if header + 16 + snd cmp > SHM_SIZE then Stop [Rd (header + 16) (snd cmp), Fault]
           else if \<not> fst cmp then
             (case cstr_len m (header + 16) of
                None \<Rightarrow> Stop [Rd (header + 16) (snd cmp),
                               Scan (header + 16) (SHM_SIZE - (header + 16)), Fault]
              | Some k \<Rightarrow>
                  Continue [Rd (header + 16) (snd cmp), Scan (header + 16) (Suc k),
                            Mismatched_symbol offset (load m (header + 16) k)]
                    (align8 offset1) record_count)
           else
             let type = dec32 (load m header 4)
             in if type = DATA_TYPE_TRADE then
                  let len = dec32 (load m (header + 4) 4)
                  in if size_add offset1 (unat len) > data_size \<or>
                        unat len \<noteq> sizeof_trade_record_t
                     then Stop ([Rd (header + 16) (snd cmp), Rd header 4, Rd (header + 4) 4,
                           Invalid_trade_length len offset1] @
                          after_loop data_size offset1 record_count)
                     else if base + offset1 + sizeof_trade_record_t > SHM_SIZE
                     then Stop [Rd (header + 16) (snd cmp), Rd header 4, Rd (header + 4) 4,
                           Rd (base + offset1) sizeof_trade_record_t, Fault]
                     else
                       Continue [Rd (header + 16) (snd cmp), Rd header 4, Rd (header + 4) 4,
                         Rd (base + offset1) sizeof_trade_record_t,
                         Trade offset (decode_trade (load m (base + offset1) sizeof_trade_record_t))]
                         (size_add offset1 (unat len)) (record_count + 1)
                else if type = DATA_TYPE_KLINE then
                  let len = dec32 (load m (header + 4) 4)
                  in if size_add offset1 (unat len) > data_size \<or>
                        unat len \<noteq> sizeof_kline_record_t
                     then Stop ([Rd (header + 16) (snd cmp), Rd header 4, Rd (header + 4) 4,
                           Invalid_kline_length len offset1] @
                          after_loop data_size offset1 record_count)
                     else if base + offset1 + sizeof_kline_record_t > SHM_SIZE
                     then Stop [Rd (header + 16) (snd cmp), Rd header 4, Rd (header + 4) 4,
                           Rd (base + offset1) sizeof_kline_record_t, Fault]
                     else
                       Continue [Rd (header + 16) (snd cmp), Rd header 4, Rd (header + 4) 4,
                         Rd (base + offset1) sizeof_kline_record_t,
                         Kline offset (decode_kline (load m (base + offset1) sizeof_kline_record_t))]
                         (size_add offset1 (unat len)) (record_count + 1)
                else
                  Continue [Rd (header + 16) (snd cmp), Rd header 4, Unknown_type type offset]
                    (align8 offset1) record_count)"

text \<open>\<open>symbol_offset\<close> as computed in line 281, for a symbol the lookup finds.\<close>

definition symbol_offset :: "memory \<Rightarrow> byte list \<Rightarrow> nat" where
  "symbol_offset m symbol =
     (case lookup_symbol m symbol (rd_size_t m off_symbol_count) 0 of
        Found symbol_idx \<Rightarrow>
          size_add (rd_size_t m off_data_offset) (size_mul symbol_idx (rd_size_t m off_buffer_size))
      | _ \<Rightarrow> 0)"


section \<open>A concrete run\<close>

text \<open>
  One tracked symbol, \<open>BTCUSDT\<close>, a zero-filled region, and records whose prices are the IEEE
  patterns of 10000.0 (\<open>0x40C3880000000000\<close>), 10001.5 (\<open>0x40C388C000000000\<close>) and 9999.25
  (\<open>0x40C387A000000000\<close>).
\<close>

definition BTCUSDT :: "byte list" where
  "BTCUSDT = [66, 84, 67, 85, 83, 68, 84]"

definition example_trade :: "64 word \<Rightarrow> 64 word \<Rightarrow> trade_record_t" where
  "example_trade p n = \<lparr>event_time = 1700000000000 + n, trade_time = 1700000000000 + n,
     price = p, quantity = 0x3FF0000000000000, trade_id = n, is_buyer_maker = 0\<rparr>"

definition example_kline :: kline_record_t where
  "example_kline = \<lparr>open_time = 1700000000000, close_time = 1700000059999,
     open_price = 0x40C3880000000000, close_price = 0x40C387A000000000,
     high_price = 0x40C388C000000000, low_price = 0x40C387A000000000,
     volume = 0x3FF0000000000000, num_trades = 3, is_final = 0\<rparr>"

definition collector0 :: collector where
  "collector0 =
     \<lparr>symbols = [init_symbol_data \<lparr>name = BTCUSDT, 
        trade_file = \<lparr>buffered = [], on_disk = []\<rparr>,
        kline_file = \<lparr>buffered = [], on_disk = []\<rparr>,
        trades = zero_ring zero_trade, klines = zero_ring zero_kline, trade_count = 0,
        kline_count = 0, message_count = 0, bytes_processed = 0\<rparr>],
      shm_header_set = False,
      shm = \<lparr>shm_bytes = (\<lambda>a. 0), shm_trace = []\<rparr>,
      last_update_time = 0\<rparr>"

section \<open>Notions used in the statements\<close>

text \<open>
  The bytes of one frame (header, then record), and the stores that copying \<open>n\<close> frames of
  record size \<open>sz\<close> to offset \<open>a\<close> makes: 32 bytes of header and \<open>sz\<close> bytes of record
  for each frame, one frame after the other.
\<close>

definition frame_bytes :: "('r \<Rightarrow> byte list) \<Rightarrow> message_header_t \<times> 'r \<Rightarrow> byte list" where
  "frame_bytes enc p = encode_header (fst p) @ enc (snd p)"

definition frame_stores :: "nat \<Rightarrow> nat \<Rightarrow> nat \<Rightarrow> (nat \<times> nat) list" where
  "frame_stores sz a n =
     concat (map (\<lambda>k. [(a + k * (32 + sz), 32), (a + k * (32 + sz) + 32, sz)]) [0..<n])"


text \<open>
  A header of the region as \<open>init_shared_memory\<close> lays it out, with any slot size: the data
  begins after the header struct, a slot holds at least its size field, and the
  \<open>MAX_SYMBOLS\<close> slots end inside the mapping.
\<close>

definition region_ok :: "memory \<Rightarrow> bool" where
  "region_ok m =
     (sizeof_shared_memory_header_t \<le> rd_size_t m off_data_offset \<and>
      sizeof_size_t \<le> rd_size_t m off_buffer_size \<and>
      rd_size_t m off_data_offset + MAX_SYMBOLS * rd_size_t m off_buffer_size \<le> SHM_SIZE)"

definition slot_offset :: "memory \<Rightarrow> nat \<Rightarrow> nat" where
  "slot_offset m i = rd_size_t m off_data_offset + i * rd_size_t m off_buffer_size"

text \<open>Both buffers of a symbol hold at most \<open>MAX_RECORDS_PER_SYMBOL\<close> entries.\<close>

definition counts_ok :: "symbol_data_t \<Rightarrow> bool" where
  "counts_ok symb =
     (count (trades symb) \<le> MAX_RECORDS_PER_SYMBOL \<and> count (klines symb) \<le> MAX_RECORDS_PER_SYMBOL)"

text \<open>
  The frames a pass copies for a symbol when the announced size is \<open>total_size\<close>: the first
  \<open>trades_to_write\<close> trades of the chronological walk, then the first \<open>klines_to_write\<close>
  klines.
\<close>

definition payload :: "symbol_data_t \<Rightarrow> nat \<Rightarrow> byte list" where
  "payload symb total_size =
     concat (map (frame_bytes encode_trade) (chrono (trades symb) (trades_to_write symb total_size))) @
     concat (map (frame_bytes encode_kline) (chrono (klines symb) (klines_to_write symb total_size)))"

text \<open>
  The region after the first \<open>k\<close> iterations of the loop over the symbols, in an invocation of
  \<open>update_shared_memory\<close> that gets past the test of the gap.
\<close>

definition pass_state :: "int \<Rightarrow> collector \<Rightarrow> nat \<Rightarrow> shm_t" where
  "pass_state now c k =
     update_symbols (take k (symbols c)) 0
       (store off_last_update_time (enc64 (word_of_int now)) (shm c))"

text \<open>The counter in the header.\<close>

definition write_counter :: "memory \<Rightarrow> 64 word" where
  "write_counter m = dec64 (load m off_write_counter 8)"

text \<open>
  \<open>time(NULL)\<close> at an instant given in milliseconds since the Epoch: the number of whole
  seconds.
\<close>

definition time :: "int \<Rightarrow> int" where
  "time ms = ms div 1000"

text \<open>
  An invocation rewrote the region when it made more stores than the one into
  \<open>last_update_time\<close>. For a run of invocations of \<open>update_shared_memory\<close> at the instants
  \<open>ts\<close> (in milliseconds, as the timer thread of lines 150--156 makes them),
  \<open>rewrite_instants\<close> lists the instants of the invocations that did.
\<close>

definition rewrote :: "collector \<Rightarrow> collector \<Rightarrow> bool" where
  "rewrote c c' = (Suc (length (shm_trace (shm c))) < length (shm_trace (shm c')))"

fun rewrite_instants :: "int list \<Rightarrow> collector \<Rightarrow> int list" where
  "rewrite_instants [] c = []"
| "rewrite_instants (t # ts) c =
     (if rewrote c (update_shared_memory (time t) c) then [t] else []) @
     rewrite_instants ts (update_shared_memory (time t) c)"

text \<open>The concrete run continued: the region is initialised, then one trade is ingested.\<close>

definition collector1 :: collector where
  "collector1 = init_shared_memory (\<lambda>a. 0) 1700000000 collector0"

definition collector_1trade :: collector where
  "collector_1trade =
     handle_aggTrade (example_trade 0x40C3880000000000 1) BTCUSDT True True 1700000001 collector1"

text \<open>
  A second trade and a kline are ingested; and a region whose header announces slots of 108
  bytes, too small for that content.
\<close>

definition collector_2t1k :: collector where
  "collector_2t1k =
     handle_kline (Some example_kline) BTCUSDT True True 1700000001
       (handle_aggTrade (example_trade 0x40C388C000000000 2) BTCUSDT True True 1700000001
          collector_1trade)"

definition small_region :: shm_t where
  "small_region =
     \<lparr>shm_bytes = memcpy (memcpy (\<lambda>a. 0) off_data_offset (enc_size_t 256))
                    off_buffer_size (enc_size_t 108),
      shm_trace = []\<rparr>"

text \<open>
  A header as \<open>handle_aggTrade\<close> or \<open>handle_kline\<close> builds it for the symbol named
  \<open>nm\<close>; and a requested symbol that equals a name up to case, the name being a C string
  that fits the 16-byte array.
\<close>

definition header_for :: "32 word \<Rightarrow> nat \<Rightarrow> byte list \<Rightarrow> message_header_t \<Rightarrow> bool" where
  "header_for ty sz nm h = (mh_type h = ty \<and> unat (mh_length h) = sz \<and> mh_symbol h = symbol_field nm)"

definition names_match :: "byte list \<Rightarrow> byte list \<Rightarrow> bool" where
  "names_match nm symbol =
     (0 \<notin> set nm \<and> length nm < MAX_SYMBOL_LENGTH \<and> map tolower nm = map tolower symbol)"

text \<open>The reads and the line of one well-formed frame at \<open>offset\<close>.\<close>

definition trade_items :: "byte list \<Rightarrow> nat \<Rightarrow> nat \<Rightarrow> trade_record_t \<Rightarrow> item list" where
  "trade_items symbol base offset r =
     [Rd (base + offset + 16) (Suc (length symbol)), Rd (base + offset) 4, Rd (base + offset + 4) 4,
      Rd (base + offset + 32) 41, Trade offset r]"

definition kline_items :: "byte list \<Rightarrow> nat \<Rightarrow> nat \<Rightarrow> kline_record_t \<Rightarrow> item list" where
  "kline_items symbol base offset r =
     [Rd (base + offset + 16) (Suc (length symbol)), Rd (base + offset) 4, Rd (base + offset + 4) 4,
      Rd (base + offset + 32) 65, Kline offset r]"

text \<open>The items of consecutive frames of size \<open>sz\<close>, the first at \<open>offset\<close>.\<close>

fun frames_items :: "(nat \<Rightarrow> 'r \<Rightarrow> item list) \<Rightarrow> nat \<Rightarrow> nat \<Rightarrow> 'r list \<Rightarrow> item list" where
  "frames_items f sz offset [] = []"
| "frames_items f sz offset (r # rs) = f offset r @ frames_items f sz (offset + sz) rs"

text \<open>
  A buffer as the handlers keep it: both arrays have the capacity, \<open>count\<close> and \<open>next_index\<close>
  are in range, a buffer that is not full has been filled from index 0, and every entry that
  is in use has a header satisfying \<open>P\<close>. A symbol is well formed when its two buffers are, with
  the headers the handlers build for its name.
\<close>

definition ring_wf :: "(message_header_t \<Rightarrow> bool) \<Rightarrow> 'r ring \<Rightarrow> bool" where
  "ring_wf P r =
     (length (records r) = MAX_RECORDS_PER_SYMBOL \<and> length (headers r) = MAX_RECORDS_PER_SYMBOL \<and>
      count r \<le> MAX_RECORDS_PER_SYMBOL \<and> next_index r < MAX_RECORDS_PER_SYMBOL \<and>
      (count r < MAX_RECORDS_PER_SYMBOL \<longrightarrow> next_index r = count r) \<and>
      (\<forall>k < count r. P (headers r ! k)))"

definition symbol_wf :: "symbol_data_t \<Rightarrow> bool" where
  "symbol_wf x =
     (ring_wf (header_for DATA_TYPE_TRADE 41 (name x)) (trades x) \<and>
      ring_wf (header_for DATA_TYPE_KLINE 65 (name x)) (klines x))"

text \<open>The records \<open>display_symbol_data\<close> printed, in the order of printing.\<close>

fun trades_of :: "item list \<Rightarrow> trade_record_t list" where
  "trades_of [] = []"
| "trades_of (Trade offset r # xs) = r # trades_of xs"
| "trades_of (x # xs) = trades_of xs"

fun klines_of :: "item list \<Rightarrow> kline_record_t list" where
  "klines_of [] = []"
| "klines_of (Kline offset r # xs) = r # klines_of xs"
| "klines_of (x # xs) = klines_of xs"

text \<open>
  The scenario of three trades for \<open>BTCUSDT\<close> with the prices 10000.0, 10001.5 and 9999.25,
  ingested in that order after the region was initialised.
\<close>

definition collector_3trades :: collector where
  "collector_3trades =
     handle_aggTrade (example_trade 0x40C387A000000000 3) BTCUSDT True True 1700000001
       (handle_aggTrade (example_trade 0x40C388C000000000 2) BTCUSDT True True 1700000001
          collector_1trade)"

text \<open>
  The warnings about a mismatched symbol in an output, which count the retries; and the
  offset of the frame whose record a line shows.
\<close>

fun is_mismatch :: "item \<Rightarrow> bool" where
  "is_mismatch (Mismatched_symbol offset s) = True"
| "is_mismatch _ = False"

definition resyncs :: "item list \<Rightarrow> nat" where
  "resyncs xs = length (filter is_mismatch xs)"

fun record_at :: "item \<Rightarrow> nat option" where
  "record_at (Trade offset r) = Some offset"
| "record_at (Kline offset r) = Some offset"
| "record_at _ = None"

text \<open>
  Two regions with the header and the directory of the concrete run and a slot 0 written by
  another hand. In the first the slot holds one trade frame whose header names \<open>ETHUSDT\<close>. In
  the second the data is one header whose symbol field is sixteen times the letter X, and
  the two bytes after the declared data are X as well.
\<close>

definition ETHUSDT :: "byte list" where
  "ETHUSDT = [69, 84, 72, 85, 83, 68, 84]"

definition corrupt_region :: memory where
  "corrupt_region = memcpy (shm_bytes (shm collector1)) 256
     (enc_size_t 73 @ encode_header (trade_header ETHUSDT 1700000001) @
      encode_trade (example_trade 0x40C3880000000000 1))"

definition unterminated_region :: memory where
  "unterminated_region = memcpy (shm_bytes (shm collector1)) 256
     (enc_size_t 32 @ replicate 16 0 @ replicate 18 88 @ [0])"


section \<open>Ring buffer: the chronological walk\<close>

lemma ring_appends_snoc:
  "ring_appends z (xs @ [(h, x)]) = ring_store x h (ring_appends z xs)"
  by (simp add: ring_appends_def)

lemma mod_cap_neq:
  fixes k n :: nat
  assumes "k < n" "n \<le> k + 99"
  shows "k mod 100 \<noteq> n mod 100"
proof
  assume "k mod 100 = n mod 100"
  then have "n mod 100 = k mod 100" by simp
  with assms(1) have "100 dvd n - k"
    by (simp add: mod_eq_dvd_iff_nat)
  then have "100 \<le> n - k" using assms(1) by (auto dest: dvd_imp_le)
  with assms(2) show False by simp
qed

lemma ring_appends_inv:
  "length (records (ring_appends z xs)) = 100 \<and>
   length (headers (ring_appends z xs)) = 100 \<and>
   count (ring_appends z xs) = min (length xs) 100 \<and>
   next_index (ring_appends z xs) = length xs mod 100 \<and>
   (\<forall>k < length xs. length xs \<le> k + 100 \<longrightarrow>
      headers (ring_appends z xs) ! (k mod 100) = fst (xs ! k) \<and>
      records (ring_appends z xs) ! (k mod 100) = snd (xs ! k))"
proof (induction xs rule: rev_induct)
  case Nil
  show ?case
    by (simp add: ring_appends_def zero_ring_def MAX_RECORDS_PER_SYMBOL_def)
next
  case (snoc p xs)
  obtain h x where p: "p = (h, x)" by (cases p)
  let ?r = "ring_appends z xs"
  have lr: "length (records ?r) = 100" and lh: "length (headers ?r) = 100"
    and c: "count ?r = min (length xs) 100" and n: "next_index ?r = length xs mod 100"
    using snoc.IH by simp_all
  have old: "\<And>k. k < length xs \<Longrightarrow> length xs \<le> k + 100 \<Longrightarrow>
      headers ?r ! (k mod 100) = fst (xs ! k) \<and> records ?r ! (k mod 100) = snd (xs ! k)"
    using snoc.IH by simp
  have new: "headers (ring_store x h ?r) ! (k mod 100) = fst ((xs @ [p]) ! k) \<and>
             records (ring_store x h ?r) ! (k mod 100) = snd ((xs @ [p]) ! k)"
    if k: "k < length (xs @ [p])" and near: "length (xs @ [p]) \<le> k + 100" for k
  proof (cases "k = length xs")
    case True
    then show ?thesis
      by (simp add: ring_store_def Let_def n lr lh p)
  next
    case False
    with k have kl: "k < length xs" by simp
    from near have "length xs \<le> k + 99" by simp
    from mod_cap_neq [OF kl this] have ne: "length xs mod 100 \<noteq> k mod 100" by simp
    from near have "length xs \<le> k + 100" by simp
    from old [OF kl this] show ?thesis
      using kl ne by (simp add: ring_store_def Let_def n nth_append)
  qed
  have st: "ring_appends z (xs @ [p]) = ring_store x h ?r"
    by (simp add: p ring_appends_snoc)
  have a1: "length (records (ring_store x h ?r)) = 100"
    by (simp add: ring_store_def Let_def lr)
  have a2: "length (headers (ring_store x h ?r)) = 100"
    by (simp add: ring_store_def Let_def lh)
  have a3: "count (ring_store x h ?r) = min (length (xs @ [p])) 100"
    by (simp add: ring_store_def Let_def c MAX_RECORDS_PER_SYMBOL_def min_def)
  have a4: "next_index (ring_store x h ?r) = length (xs @ [p]) mod 100"
    by (simp add: ring_store_def Let_def n MAX_RECORDS_PER_SYMBOL_def mod_simps)
  show ?case
    unfolding st using a1 a2 a3 a4 new by blast
qed

text \<open>
  C1. After any run of appends into a zeroed buffer of one symbol (trade or kline: the buffer
  is generic in the record type), the publisher's walk over \<open>count\<close> entries, started at
  \<open>next_index\<close> when the buffer is full and at 0 otherwise, yields the last
  \<open>min N' MAX_RECORDS_PER_SYMBOL\<close> appended (header, record) pairs, oldest first, and \<open>count\<close>
  is that minimum.
\<close>

theorem ring_snapshot_in_order:
  "chrono (ring_appends z xs) (count (ring_appends z xs)) =
     drop (length xs - MAX_RECORDS_PER_SYMBOL) xs \<and>
   count (ring_appends z xs) = min (length xs) MAX_RECORDS_PER_SYMBOL"
proof -
  let ?r = "ring_appends z xs"
  note inv = ring_appends_inv [of z xs]
  have c: "count ?r = min (length xs) 100" and n: "next_index ?r = length xs mod 100"
    using inv by simp_all
  have at: "\<And>k. k < length xs \<Longrightarrow> length xs \<le> k + 100 \<Longrightarrow>
      (headers ?r ! (k mod 100), records ?r ! (k mod 100)) = xs ! k"
    using inv by (simp add: prod_eq_iff)
  have "chrono ?r (count ?r) = drop (length xs - 100) xs"
  proof (rule nth_equalityI)
    show "length (chrono ?r (count ?r)) = length (drop (length xs - 100) xs)"
      by (simp add: chrono_def c)
  next
    fix j assume "j < length (chrono ?r (count ?r))"
    then have j: "j < min (length xs) 100" by (simp add: chrono_def c)
    show "chrono ?r (count ?r) ! j = drop (length xs - 100) xs ! j"
    proof (cases "length xs < 100")
      case True
      with j have "walk_idx ?r j = j mod 100"
        by (simp add: walk_idx_def start_idx_def c MAX_RECORDS_PER_SYMBOL_def)
      moreover from True j have "j < length xs" "length xs \<le> j + 100" by simp_all
      ultimately show ?thesis
        using at [of j] j True by (simp add: chrono_def c)
    next
      case False
      let ?k = "length xs - 100 + j"
      from False j have k: "?k < length xs" "length xs \<le> ?k + 100" by simp_all
      from False have "walk_idx ?r j = (length xs mod 100 + j) mod 100"
        by (simp add: walk_idx_def start_idx_def c n MAX_RECORDS_PER_SYMBOL_def)
      also have "\<dots> = (length xs + j) mod 100" by (simp add: mod_simps)
      also from False have "length xs + j = ?k + 100" by simp
      also have "(?k + 100) mod 100 = ?k mod 100" by simp
      finally show ?thesis
        using at [OF k] j False by (simp add: chrono_def c)
    qed
  qed
  then show ?thesis by (simp add: c MAX_RECORDS_PER_SYMBOL_def)
qed

section \<open>Ingestion and the durable log\<close>

lemma find_symbol_Some:
  "find_symbol j xs s = Some i \<Longrightarrow> j \<le> i \<and> i - j < length xs \<and> name (xs ! (i - j)) = s"
proof (induction xs arbitrary: j)
  case Nil
  then show ?case by simp
next
  case (Cons x xs)
  show ?case
  proof (cases "name x = s")
    case True
    with Cons.prems show ?thesis by simp
  next
    case False
    with Cons.prems have "find_symbol (Suc j) xs s = Some i" by simp
    from Cons.IH [OF this] have "Suc j \<le> i" "i - Suc j < length xs"
      "name (xs ! (i - Suc j)) = s" by simp_all
    moreover from \<open>Suc j \<le> i\<close> have "i - j = Suc (i - Suc j)" by simp
    ultimately show ?thesis by simp
  qed
qed

lemma find_symbol_collector0: "find_symbol 0 (symbols collector0) BTCUSDT = Some 0"
  by (simp add: collector0_def init_symbol_data_def)

text \<open>
  C5, as the code has it. For a known symbol, the insertion into the ring buffer and the
  counter updates are in the branch taken when \<open>fwrite\<close> returned 1, and the result of the
  \<open>fflush\<close> that follows is ignored. So, whatever the \<open>fflush\<close> does: when \<open>fwrite\<close> returned 1
  both handlers append the record with its header and add to the counters; when \<open>fwrite\<close> did
  not return 1 they leave the ring buffers and the counters as they were, and the stream takes
  no item. A failing \<open>fflush\<close> after an \<open>fwrite\<close> that returned 1 leaves the file without the
  record, which is in the ring buffer all the same.
\<close>

theorem ingest_gated_by_fwrite:
  assumes "find_symbol 0 (symbols c) symbol = Some i"
  shows "symbols (handle_aggTrade r symbol False fl now c) ! i =
           (symbols c ! i)\<lparr>trade_file := fflush fl (trade_file (symbols c ! i))\<rparr> \<and>
         symbols (handle_kline (Some k) symbol False fl now c) ! i =
           (symbols c ! i)\<lparr>kline_file := fflush fl (kline_file (symbols c ! i))\<rparr> \<and>
         symbols (handle_aggTrade r symbol True fl now c) ! i =
           (symbols c ! i)\<lparr>trade_count := trade_count (symbols c ! i) + 1,
              message_count := message_count (symbols c ! i) + 1,
              bytes_processed := bytes_processed (symbols c ! i) + 41,
              trades := ring_store r (trade_header symbol now) (trades (symbols c ! i)),
              trade_file := fflush fl (fwrite r (trade_file (symbols c ! i)))\<rparr> \<and>
         symbols (handle_kline (Some k) symbol True fl now c) ! i =
           (symbols c ! i)\<lparr>kline_count := kline_count (symbols c ! i) + 1,
              message_count := message_count (symbols c ! i) + 1,
              bytes_processed := bytes_processed (symbols c ! i) + 65,
              klines := ring_store k (kline_header symbol now) (klines (symbols c ! i)),
              kline_file := fflush fl (fwrite k (kline_file (symbols c ! i)))\<rparr> \<and>
         on_disk (trade_file (symbols (handle_aggTrade r symbol True False now c) ! i)) =
           on_disk (trade_file (symbols c ! i)) \<and>
         on_disk (kline_file (symbols (handle_kline (Some k) symbol True False now c) ! i)) =
           on_disk (kline_file (symbols c ! i)) \<and>
         (\<forall>j. j \<noteq> i \<longrightarrow>
            symbols (handle_aggTrade r symbol ok fl now c) ! j = symbols c ! j \<and>
            symbols (handle_kline (Some k) symbol ok fl now c) ! j = symbols c ! j)"
proof -
  from find_symbol_Some [OF assms] have i: "i < length (symbols c)" by simp
  show ?thesis
    using i
    by (simp add: handle_aggTrade_def handle_kline_def assms Let_def trade_header_def
        kline_header_def sizeof_trade_record_t_def sizeof_kline_record_t_def fflush_def
        fwrite_def)
qed

theorem ingest_gated_by_fwrite_witness:
  "find_symbol 0 (symbols collector0) BTCUSDT = Some 0 \<and>
   count (trades (symbols (handle_aggTrade (example_trade 0x40C3880000000000 1) BTCUSDT False
     True 1700000000 collector0) ! 0)) = 0 \<and>
   count (trades (symbols (handle_aggTrade (example_trade 0x40C3880000000000 1) BTCUSDT True
     False 1700000000 collector0) ! 0)) = 1 \<and>
   on_disk (trade_file (symbols (handle_aggTrade (example_trade 0x40C3880000000000 1) BTCUSDT
     True False 1700000000 collector0) ! 0)) = [] \<and>
   count (klines (symbols (handle_kline (Some example_kline) BTCUSDT True
     False 1700000000 collector0) ! 0)) = 1"
proof -
  let ?r = "example_trade 0x40C3880000000000 1"
  note t = ingest_gated_by_fwrite [OF find_symbol_collector0,
      where r = ?r and k = example_kline and now = 1700000000 and ok = True]
  have z: "count (trades (symbols collector0 ! 0)) = 0" "count (klines (symbols collector0 ! 0)) = 0"
    "on_disk (trade_file (symbols collector0 ! 0)) = []"
    by (simp_all add: collector0_def init_symbol_data_def zero_ring_def)
  from t [where fl = True]
  have "symbols (handle_aggTrade ?r BTCUSDT False True 1700000000 collector0) ! 0 =
      (symbols collector0 ! 0)\<lparr>trade_file := fflush True (trade_file (symbols collector0 ! 0))\<rparr>"
    by (rule conjunct1)
  then have a: "count (trades (symbols (handle_aggTrade ?r BTCUSDT False True 1700000000
      collector0) ! 0)) = 0"
    by (simp add: z)
  from t [where fl = False]
  have "trades (symbols (handle_aggTrade ?r BTCUSDT True False 1700000000 collector0) ! 0) =
      ring_store ?r (trade_header BTCUSDT 1700000000) (trades (symbols collector0 ! 0))"
    "klines (symbols (handle_kline (Some example_kline) BTCUSDT True False 1700000000
       collector0) ! 0) =
      ring_store example_kline (kline_header BTCUSDT 1700000000) (klines (symbols collector0 ! 0))"
    by simp_all
  then have b: "count (trades (symbols (handle_aggTrade ?r BTCUSDT True False 1700000000
      collector0) ! 0)) = 1"
    "count (klines (symbols (handle_kline (Some example_kline) BTCUSDT True False 1700000000
       collector0) ! 0)) = 1"
    by (simp_all add: z ring_store_def Let_def MAX_RECORDS_PER_SYMBOL_def)
  from t [where fl = False]
  have "on_disk (trade_file (symbols (handle_aggTrade ?r BTCUSDT True False 1700000000
      collector0) ! 0)) = on_disk (trade_file (symbols collector0 ! 0))"
    by blast
  then have c: "on_disk (trade_file (symbols (handle_aggTrade ?r BTCUSDT True False 1700000000
      collector0) ! 0)) = []"
    by (simp only: z)
  from a b c show ?thesis by (simp only: find_symbol_collector0 simp_thms)
qed

text \<open>
  C5 as stated fails: when \<open>fwrite\<close> does not return 1 the trade is not in the ring buffer and
  the counters have not moved, while the same call with \<open>fwrite\<close> returning 1 inserts it.
\<close>

theorem ingest_dropped_on_fwrite_failure:
  "count (trades (symbols (handle_aggTrade (example_trade 0x40C3880000000000 1) BTCUSDT False
      True 1700000000 collector0) ! 0)) = 0 \<and>
   count (trades (symbols (handle_aggTrade (example_trade 0x40C3880000000000 1) BTCUSDT True
      True 1700000000 collector0) ! 0)) = 1 \<and>
   trade_count (symbols (handle_aggTrade (example_trade 0x40C3880000000000 1) BTCUSDT False
      True 1700000000 collector0) ! 0) = 0"
  by (simp add: handle_aggTrade_def find_symbol_collector0 ring_store_def Let_def)
     (simp add: collector0_def init_symbol_data_def zero_ring_def MAX_RECORDS_PER_SYMBOL_def)

section \<open>Encodings and memory: basic facts\<close>

lemma length_le_bytes [simp]: "length (le_bytes n v) = n"
  by (induction n arbitrary: v) simp_all

lemma unat_byte_of_nat: "unat (of_nat (v mod 256) :: byte) = v mod 256"
  by (simp add: unat_of_nat)

lemma le_nat_le_bytes: "le_nat (le_bytes n v) = v mod 256 ^ n"
proof (induction n arbitrary: v)
  case 0
  show ?case by simp
next
  case (Suc n)
  have "le_nat (le_bytes (Suc n) v) = v mod 256 + 256 * ((v div 256) mod 256 ^ n)"
    by (simp add: Suc.IH unat_byte_of_nat)
  also have "\<dots> = v mod 256 ^ Suc n"
    by (simp add: mod_mult2_eq)
  finally show ?case .
qed

lemma le_nat_bound: "le_nat bs < 256 ^ length bs"
proof (induction bs)
  case Nil
  show ?case by simp
next
  case (Cons b bs)
  have "unat b < 256" using unsigned_less [of b] by simp
  moreover from Cons have "le_nat bs + 1 \<le> 256 ^ length bs" by simp
  then have "256 * (le_nat bs + 1) \<le> 256 * 256 ^ length bs" by (rule mult_le_mono2)
  ultimately show ?case by simp
qed

lemma length_enc64 [simp]: "length (enc64 w) = 8"
  by (simp add: enc64_def)

lemma length_enc32 [simp]: "length (enc32 w) = 4"
  by (simp add: enc32_def)

lemma dec64_enc64 [simp]: "dec64 (enc64 w) = w"
proof -
  have "unat w < 256 ^ 8" using unsigned_less [of w] by simp
  then show ?thesis by (simp add: dec64_def enc64_def le_nat_le_bytes)
qed

lemma dec32_enc32 [simp]: "dec32 (enc32 w) = w"
proof -
  have "unat w < 256 ^ 4" using unsigned_less [of w] by simp
  then show ?thesis by (simp add: dec32_def enc32_def le_nat_le_bytes)
qed

lemma length_enc_size_t [simp]: "length (enc_size_t v) = 8"
  by (simp add: enc_size_t_def sizeof_size_t_def)

lemma length_encode_header [simp]: "length (encode_header h) = 32"
  by (simp add: encode_header_def MAX_SYMBOL_LENGTH_def)

lemma length_encode_trade [simp]: "length (encode_trade r) = 41"
  by (simp add: encode_trade_def)

lemma length_encode_kline [simp]: "length (encode_kline r) = 65"
  by (simp add: encode_kline_def)

lemma decode_encode_trade [simp]: "decode_trade (encode_trade r) = r"
  by (simp add: decode_trade_def encode_trade_def nth_append)

lemma decode_encode_kline [simp]: "decode_kline (encode_kline r) = r"
  by (simp add: decode_kline_def encode_kline_def nth_append)

lemma length_load [simp]: "length (load m a n) = n"
  by (simp add: load_def)

lemma nth_load: "k < n \<Longrightarrow> load m a n ! k = m (a + k)"
  by (simp add: load_def)

lemma memcpy_inside: "dst \<le> a \<Longrightarrow> a < dst + length bs \<Longrightarrow> memcpy m dst bs a = bs ! (a - dst)"
  by (simp add: memcpy_def)

lemma memcpy_outside: "a < dst \<or> dst + length bs \<le> a \<Longrightarrow> memcpy m dst bs a = m a"
  by (auto simp: memcpy_def)

lemma load_memcpy_same: "load (memcpy m a bs) a (length bs) = bs"
  by (rule nth_equalityI) (simp_all add: nth_load memcpy_def)

lemma load_memcpy_part:
  "k + n \<le> length bs \<Longrightarrow> load (memcpy m a bs) (a + k) n = take n (drop k bs)"
  by (rule nth_equalityI) (simp_all add: nth_load memcpy_def)

lemma load_memcpy_disjoint:
  "a + n \<le> dst \<or> dst + length bs \<le> a \<Longrightarrow> load (memcpy m dst bs) a n = load m a n"
  by (rule nth_equalityI) (auto simp: nth_load memcpy_def)

lemma memcpy_append: "memcpy (memcpy m a xs) (a + length xs) ys = memcpy m a (xs @ ys)"
  by (rule ext) (auto simp: memcpy_def nth_append)

lemma memcpy_Nil [simp]: "memcpy m a [] = m"
  by (rule ext) (auto simp: memcpy_def)

lemma load_eqI: "(\<And>k. k < n \<Longrightarrow> m (a + k) = m' (a + k)) \<Longrightarrow> load m a n = load m' a n"
  by (rule nth_equalityI) (simp_all add: nth_load)

lemma rd_size_t_memcpy_same: "v < 2 ^ 64 \<Longrightarrow> rd_size_t (memcpy m a (enc_size_t v)) a = v"
  using load_memcpy_same [of m a "enc_size_t v"]
  by (simp add: rd_size_t_def enc_size_t_def sizeof_size_t_def le_nat_le_bytes)

lemma rd_size_t_bound: "rd_size_t m a < 2 ^ 64"
  using le_nat_bound [of "load m a 8"] by (simp add: rd_size_t_def sizeof_size_t_def)

section \<open>The publisher's stores\<close>

lemma size_add_small: "a + b < 2 ^ 64 \<Longrightarrow> size_add a b = a + b"
  by (simp add: size_add_def)

lemma size_mul_small: "a * b < 2 ^ 64 \<Longrightarrow> size_mul a b = a * b"
  by (simp add: size_mul_def)

lemma sub_wrap:
  fixes a b N :: nat
  assumes "b \<le> a" "a < N"
  shows "(a + N - b mod N) mod N = a - b"
proof -
  from assms have b: "b mod N = b" by simp
  from assms(1) have eq: "a + N - b = (a - b) + N" by (rule Nat.add_diff_assoc2 [symmetric])
  from assms(2) have lt: "a - b < N" by (rule less_imp_diff_less)
  have "(a + N - b mod N) mod N = ((a - b) + N) mod N" by (simp only: b eq)
  also have "\<dots> = (a - b) mod N" by (rule mod_add_self2)
  also have "\<dots> = a - b" using lt by (rule mod_less)
  finally show ?thesis .
qed

lemma size_sub_small: "b \<le> a \<Longrightarrow> a < 2 ^ 64 \<Longrightarrow> size_sub a b = a - b"
  unfolding size_sub_def by (rule sub_wrap)

lemma trade_frame_size [simp]: "trade_frame_size = 73"
  by (simp add: trade_frame_size_def size_add_def sizeof_message_header_t_def
      sizeof_trade_record_t_def)

lemma kline_frame_size [simp]: "kline_frame_size = 97"
  by (simp add: kline_frame_size_def size_add_def sizeof_message_header_t_def
      sizeof_kline_record_t_def)

lemma frame_stores_Suc:
  "frame_stores sz a (Suc n) = [(a, 32), (a + 32, sz)] @ frame_stores sz (a + (32 + sz)) n"
proof -
  have "[0..<Suc n] = 0 # map Suc [0..<n]"
    by (simp add: upt_conv_Cons map_Suc_upt del: upt_Suc)
  then show ?thesis
    by (simp add: frame_stores_def comp_def add.assoc del: upt_Suc)
qed

lemma write_frames_spec:
  assumes enc: "\<And>x. length (enc x) = sz"
  shows "cur + length js * (32 + sz) < 2 ^ 64 \<Longrightarrow>
    write_frames enc sz r js cur s =
      (cur + length js * (32 + sz),
       \<lparr>shm_bytes = memcpy (shm_bytes s) cur
          (concat (map (\<lambda>j. frame_bytes enc (headers r ! walk_idx r j, records r ! walk_idx r j)) js)),
        shm_trace = shm_trace s @ frame_stores sz cur (length js)\<rparr>)"
proof (induction js arbitrary: cur s)
  case Nil
  show ?case by (simp add: frame_stores_def)
next
  case (Cons j js)
  let ?h = "encode_header (headers r ! walk_idx r j)"
  let ?x = "enc (records r ! walk_idx r j)"
  let ?s2 = "store (cur + 32) ?x (store cur ?h s)"
  let ?rest = "concat (map (\<lambda>j. frame_bytes enc (headers r ! walk_idx r j, records r ! walk_idx r j)) js)"
  have "cur + 32 \<le> cur + length (j # js) * (32 + sz)"
    and "cur + 32 + sz \<le> cur + length (j # js) * (32 + sz)"
    by simp_all
  with Cons.prems have b1: "cur + 32 < 2 ^ 64" and b2: "cur + 32 + sz < 2 ^ 64"
    by linarith+
  have e3: "cur + length (j # js) * (32 + sz) = (cur + (32 + sz)) + length js * (32 + sz)"
    by simp
  with Cons.prems have b3: "(cur + (32 + sz)) + length js * (32 + sz) < 2 ^ 64"
    by linarith
  have a1: "size_add cur sizeof_message_header_t = cur + 32"
    using b1 by (simp add: size_add_small sizeof_message_header_t_def)
  have a2: "size_add (cur + 32) sz = cur + (32 + sz)"
    using b2 by (simp add: size_add_small add.assoc)
  have step: "write_frames enc sz r (j # js) cur s = write_frames enc sz r js (cur + (32 + sz)) ?s2"
    by (simp add: Let_def a1 a2 enc)
  have bytes: "shm_bytes ?s2 = memcpy (shm_bytes s) cur (?h @ ?x)"
    using memcpy_append [of "shm_bytes s" cur ?h ?x] by (simp add: store_def)
  have trace: "shm_trace ?s2 = shm_trace s @ [(cur, 32), (cur + 32, sz)]"
    by (simp add: store_def enc)
  have len: "length (?h @ ?x) = 32 + sz" by (simp add: enc)
  have app: "memcpy (memcpy (shm_bytes s) cur (?h @ ?x)) (cur + (32 + sz)) ?rest
      = memcpy (shm_bytes s) cur ((?h @ ?x) @ ?rest)"
    using memcpy_append [of "shm_bytes s" cur "?h @ ?x" ?rest] unfolding len .
  have cat: "concat (map (\<lambda>j. frame_bytes enc (headers r ! walk_idx r j, records r ! walk_idx r j)) (j # js))
      = (?h @ ?x) @ ?rest"
    by (simp add: frame_bytes_def)
  have tr: "(shm_trace s @ [(cur, 32), (cur + 32, sz)]) @ frame_stores sz (cur + (32 + sz)) (length js)
      = shm_trace s @ frame_stores sz cur (length (j # js))"
    by (simp add: frame_stores_Suc)
  show ?case
    unfolding step Cons.IH [OF b3] bytes trace app cat tr e3 ..
qed

lemma chrono_frames:
  "concat (map (\<lambda>j. frame_bytes enc (headers r ! walk_idx r j, records r ! walk_idx r j)) [0..<n])
     = concat (map (frame_bytes enc) (chrono r n))"
  by (simp add: chrono_def comp_def)

section \<open>The truncation arithmetic\<close>

lemma pow64: "(2::nat) ^ 64 = 18446744073709551616"
  by simp

lemma small_lt_pow64: "n \<le> 67108864 \<Longrightarrow> n < (2::nat) ^ 64"
  by simp

lemma count_mul_small:
  assumes "c \<le> MAX_RECORDS_PER_SYMBOL" "k \<le> 97"
  shows "size_mul c k = c * k" "c * k \<le> 9700"
proof -
  from assms have "c * k \<le> 100 * 97"
    unfolding MAX_RECORDS_PER_SYMBOL_def by (rule mult_le_mono)
  then show le: "c * k \<le> 9700" by simp
  then have "c * k < 2 ^ 64" by simp
  then show "size_mul c k = c * k" by (rule size_mul_small)
qed

text \<open>What the publisher computes for a symbol whose counts are in range, without wrap-around.\<close>

lemma total_data_size_eq:
  assumes "counts_ok symb" "sizeof_size_t \<le> bs" "bs < 2 ^ 64"
  shows "total_data_size symb bs =
           min (count (trades symb) * 73 + count (klines symb) * 97) (bs - 8)"
proof -
  from assms(1) have ct: "count (trades symb) \<le> MAX_RECORDS_PER_SYMBOL"
    and ck: "count (klines symb) \<le> MAX_RECORDS_PER_SYMBOL"
    by (simp_all add: counts_ok_def)
  note t = count_mul_small [OF ct, of 73, simplified]
  note k = count_mul_small [OF ck, of 97, simplified]
  from t(2) k(2) have "count (trades symb) * 73 + count (klines symb) * 97 < 2 ^ 64"
    by simp
  then have s: "size_add (count (trades symb) * 73) (count (klines symb) * 97)
      = count (trades symb) * 73 + count (klines symb) * 97"
    by (rule size_add_small)
  from assms(2) have "8 \<le> bs" by (simp add: sizeof_size_t_def)
  from size_sub_small [OF this assms(3)] have c: "size_sub bs sizeof_size_t = bs - 8"
    by (simp add: sizeof_size_t_def)
  show ?thesis
    unfolding total_data_size_def Let_def trade_frame_size kline_frame_size t(1) k(1) s c
    by (simp add: min_def)
qed

lemma trades_to_write_facts:
  assumes "counts_ok symb"
  shows "trades_to_write symb tot \<le> count (trades symb)"
    and "trade_bytes symb tot = trades_to_write symb tot * 73"
    and "trades_to_write symb tot * 73 \<le> tot"
    and "count (trades symb) * 73 \<le> tot \<Longrightarrow> trades_to_write symb tot = count (trades symb)"
    and "trades_to_write symb tot < count (trades symb) \<Longrightarrow> tot - trades_to_write symb tot * 73 < 73"
proof -
  from assms have ct: "count (trades symb) \<le> MAX_RECORDS_PER_SYMBOL"
    by (simp add: counts_ok_def)
  note t = count_mul_small [OF ct, of 73, simplified]
  have d: "tot div 73 * 73 \<le> tot" by simp
  have def: "trades_to_write symb tot =
      (if count (trades symb) * 73 > tot then tot div 73 else count (trades symb))"
    unfolding trades_to_write_def trade_frame_size t(1) ..
  show le: "trades_to_write symb tot \<le> count (trades symb)"
  proof (cases "count (trades symb) * 73 > tot")
    case True
    then have "tot div 73 < count (trades symb)"
      by (simp add: div_less_iff_less_mult)
    with True show ?thesis by (simp add: def)
  next
    case False
    then show ?thesis by (simp add: def)
  qed
  from le ct have "trades_to_write symb tot \<le> MAX_RECORDS_PER_SYMBOL" by simp
  from count_mul_small(1) [OF this, of 73]
  show "trade_bytes symb tot = trades_to_write symb tot * 73"
    by (simp add: trade_bytes_def)
  show "trades_to_write symb tot * 73 \<le> tot"
    using d by (simp add: def)
  show "count (trades symb) * 73 \<le> tot \<Longrightarrow> trades_to_write symb tot = count (trades symb)"
    by (simp add: def)
  show "trades_to_write symb tot < count (trades symb) \<Longrightarrow> tot - trades_to_write symb tot * 73 < 73"
  proof -
    assume "trades_to_write symb tot < count (trades symb)"
    then have "trades_to_write symb tot = tot div 73"
      by (simp add: def split: if_splits)
    moreover have "tot - tot div 73 * 73 = tot mod 73"
      by (simp add: minus_div_mult_eq_mod)
    ultimately show ?thesis by simp
  qed
qed

lemma klines_to_write_facts:
  assumes "counts_ok symb" "tot < 2 ^ 64"
  shows "klines_to_write symb tot \<le> count (klines symb)"
    and "kline_bytes symb tot = klines_to_write symb tot * 97"
    and "trades_to_write symb tot * 73 + klines_to_write symb tot * 97 \<le> tot"
    and "count (trades symb) * 73 + count (klines symb) * 97 \<le> tot \<Longrightarrow>
           klines_to_write symb tot = count (klines symb)"
    and "trades_to_write symb tot < count (trades symb) \<Longrightarrow> klines_to_write symb tot = 0"
proof -
  from assms have ck: "count (klines symb) \<le> MAX_RECORDS_PER_SYMBOL"
    by (simp add: counts_ok_def)
  note k = count_mul_small [OF ck, of 97, simplified]
  note t = trades_to_write_facts [OF assms(1), of tot]
  let ?rem = "tot - trades_to_write symb tot * 73"
  from size_sub_small [OF t(3) assms(2)]
  have r: "size_sub tot (trade_bytes symb tot) = ?rem"
    by (simp add: t(2))
  have def: "klines_to_write symb tot =
      (if count (klines symb) * 97 > ?rem then ?rem div 97 else count (klines symb))"
    unfolding klines_to_write_def Let_def kline_frame_size k(1) r ..
  have d: "?rem div 97 * 97 \<le> ?rem" by simp
  show le: "klines_to_write symb tot \<le> count (klines symb)"
  proof (cases "count (klines symb) * 97 > ?rem")
    case True
    then have "?rem div 97 < count (klines symb)"
      by (simp add: div_less_iff_less_mult)
    with True show ?thesis by (simp add: def)
  next
    case False
    then show ?thesis by (simp add: def)
  qed
  from le ck have "klines_to_write symb tot \<le> MAX_RECORDS_PER_SYMBOL" by simp
  from count_mul_small(1) [OF this, of 97]
  show "kline_bytes symb tot = klines_to_write symb tot * 97"
    by (simp add: kline_bytes_def)
  have "klines_to_write symb tot * 97 \<le> ?rem"
    using d by (simp add: def)
  with t(3) show "trades_to_write symb tot * 73 + klines_to_write symb tot * 97 \<le> tot"
    by simp
  show "count (trades symb) * 73 + count (klines symb) * 97 \<le> tot \<Longrightarrow>
           klines_to_write symb tot = count (klines symb)"
  proof -
    assume fit: "count (trades symb) * 73 + count (klines symb) * 97 \<le> tot"
    then have "count (trades symb) * 73 \<le> tot" by simp
    from t(4) [OF this] fit show ?thesis by (simp add: def)
  qed
  show "trades_to_write symb tot < count (trades symb) \<Longrightarrow> klines_to_write symb tot = 0"
  proof -
    assume "trades_to_write symb tot < count (trades symb)"
    from t(5) [OF this] have lt: "?rem < 73" .
    show ?thesis
    proof (cases "count (klines symb) * 97 > ?rem")
      case True
      with lt show ?thesis by (simp add: def)
    next
      case False
      with lt have "count (klines symb) * 97 < 73" by simp
      then have "count (klines symb) = 0" by simp
      with False show ?thesis by (simp add: def)
    qed
  qed
qed

section \<open>What one iteration of the publisher leaves in the region\<close>

lemma length_concat_frames:
  assumes "\<And>x. length (enc x) = sz"
  shows "length (concat (map (frame_bytes enc) xs)) = length xs * (32 + sz)"
  by (induction xs) (simp_all add: frame_bytes_def assms)

lemma length_chrono [simp]: "length (chrono r n) = n"
  by (simp add: chrono_def)

lemma region_ok_slot:
  assumes "region_ok m" "i < MAX_SYMBOLS"
  shows "size_add (rd_size_t m off_data_offset) (size_mul i (rd_size_t m off_buffer_size))
           = slot_offset m i"
    and "slot_offset m i + rd_size_t m off_buffer_size \<le> SHM_SIZE"
    and "256 \<le> slot_offset m i"
    and "8 \<le> rd_size_t m off_buffer_size"
proof -
  let ?d = "rd_size_t m off_data_offset" and ?b = "rd_size_t m off_buffer_size"
  from assms(1) have d: "256 \<le> ?d" and b: "8 \<le> ?b" and e: "?d + 10 * ?b \<le> SHM_SIZE"
    by (simp_all add: region_ok_def sizeof_shared_memory_header_t_def sizeof_size_t_def
        MAX_SYMBOLS_def)
  from assms(2) have "Suc i \<le> 10" by (simp add: MAX_SYMBOLS_def)
  then have "Suc i * ?b \<le> 10 * ?b" by (rule mult_le_mono1)
  then have "i * ?b + ?b \<le> 10 * ?b" by (simp add: add.commute)
  with e have s: "?d + i * ?b + ?b \<le> SHM_SIZE" by linarith
  then show "slot_offset m i + ?b \<le> SHM_SIZE" by (simp add: slot_offset_def)
  from s have "i * ?b \<le> 67108864" "?d + i * ?b \<le> 67108864"
    by (simp_all add: SHM_SIZE_def)
  then have "i * ?b < 2 ^ 64" "?d + i * ?b < 2 ^ 64"
    by (auto intro: small_lt_pow64)
  then show "size_add ?d (size_mul i ?b) = slot_offset m i"
    by (simp add: size_mul_small size_add_small slot_offset_def)
  from d show "256 \<le> slot_offset m i" by (simp add: slot_offset_def)
  from b show "8 \<le> ?b" .
qed

lemma update_symbol_spec:
  assumes ok: "region_ok (shm_bytes s)" and i: "i < MAX_SYMBOLS" and c: "counts_ok symb"
  shows "update_symbol symb i s =
    \<lparr>shm_bytes =
       memcpy (memcpy (shm_bytes s) (slot_offset (shm_bytes s) i)
            (enc_size_t (total_data_size symb (rd_size_t (shm_bytes s) off_buffer_size))))
         (slot_offset (shm_bytes s) i + 8)
         (payload symb (total_data_size symb (rd_size_t (shm_bytes s) off_buffer_size))),
     shm_trace = shm_trace s @
       (slot_offset (shm_bytes s) i, 8) #
       frame_stores 41 (slot_offset (shm_bytes s) i + 8)
         (trades_to_write symb (total_data_size symb (rd_size_t (shm_bytes s) off_buffer_size))) @
       frame_stores 65 (slot_offset (shm_bytes s) i + 8 +
           trades_to_write symb (total_data_size symb (rd_size_t (shm_bytes s) off_buffer_size)) * 73)
         (klines_to_write symb (total_data_size symb (rd_size_t (shm_bytes s) off_buffer_size)))\<rparr>"
proof -
  let ?m = "shm_bytes s"
  let ?bs = "rd_size_t ?m off_buffer_size"
  let ?so = "slot_offset ?m i"
  let ?tot = "total_data_size symb ?bs"
  let ?ttw = "trades_to_write symb ?tot" and ?ktw = "klines_to_write symb ?tot"
  let ?T = "concat (map (frame_bytes encode_trade) (chrono (trades symb) ?ttw))"
  let ?K = "concat (map (frame_bytes encode_kline) (chrono (klines symb) ?ktw))"
  note slot = region_ok_slot [OF ok i]
  have bs64: "?bs < 2 ^ 64" by (rule rd_size_t_bound)
  from slot(4) have bs8: "sizeof_size_t \<le> ?bs" by (simp add: sizeof_size_t_def)
  have tot: "?tot = min (count (trades symb) * 73 + count (klines symb) * 97) (?bs - 8)"
    by (rule total_data_size_eq [OF c bs8 bs64])
  then have tot_le: "?tot \<le> ?bs - 8" by simp
  with bs64 have tot64: "?tot < 2 ^ 64" by simp
  note kf = klines_to_write_facts [OF c tot64]
  from kf(3) tot_le slot(4) have fit: "8 + ?ttw * 73 + ?ktw * 97 \<le> ?bs" by simp
  with slot(2) have end_le: "?so + 8 + ?ttw * 73 + ?ktw * 97 \<le> 67108864"
    by (simp add: SHM_SIZE_def)
  then have so8: "?so + 8 < 2 ^ 64" and b1: "?so + 8 + ?ttw * 73 < 2 ^ 64"
    and b2: "?so + 8 + ?ttw * 73 + ?ktw * 97 < 2 ^ 64"
    by (auto intro: small_lt_pow64)
  have a8: "size_add ?so sizeof_size_t = ?so + 8"
    using so8 by (simp add: size_add_small sizeof_size_t_def)
  from end_le have chk: "\<not> SHM_SIZE < ?so + 8" by (simp add: SHM_SIZE_def)
  let ?s1 = "store ?so (enc_size_t ?tot) s"
  have w1: "write_frames encode_trade sizeof_trade_record_t (trades symb) [0..<?ttw] (?so + 8) ?s1
      = (?so + 8 + ?ttw * 73,
         \<lparr>shm_bytes = memcpy (shm_bytes ?s1) (?so + 8) ?T,
          shm_trace = shm_trace ?s1 @ frame_stores 41 (?so + 8) ?ttw\<rparr>)"
    using write_frames_spec [of encode_trade 41 "?so + 8" "[0..<?ttw]" "trades symb" ?s1] b1
    by (simp add: sizeof_trade_record_t_def chrono_frames)
  let ?s2 = "\<lparr>shm_bytes = memcpy (shm_bytes ?s1) (?so + 8) ?T,
          shm_trace = shm_trace ?s1 @ frame_stores 41 (?so + 8) ?ttw\<rparr>"
  have w2: "write_frames encode_kline sizeof_kline_record_t (klines symb) [0..<?ktw]
        (?so + 8 + ?ttw * 73) ?s2
      = (?so + 8 + ?ttw * 73 + ?ktw * 97,
         \<lparr>shm_bytes = memcpy (shm_bytes ?s2) (?so + 8 + ?ttw * 73) ?K,
          shm_trace = shm_trace ?s2 @ frame_stores 65 (?so + 8 + ?ttw * 73) ?ktw\<rparr>)"
    using write_frames_spec [of encode_kline 65 "?so + 8 + ?ttw * 73" "[0..<?ktw]" "klines symb" ?s2] b2
    by (simp add: sizeof_kline_record_t_def chrono_frames)
  have lenT: "length ?T = ?ttw * 73"
    using length_concat_frames [of encode_trade 41 "chrono (trades symb) ?ttw"] by simp
  have join: "memcpy (memcpy (shm_bytes ?s1) (?so + 8) ?T) (?so + 8 + ?ttw * 73) ?K
      = memcpy (shm_bytes ?s1) (?so + 8) (?T @ ?K)"
    using memcpy_append [of "shm_bytes ?s1" "?so + 8" ?T ?K] unfolding lenT .
  have "update_symbol symb i s =
      \<lparr>shm_bytes = memcpy (shm_bytes ?s2) (?so + 8 + ?ttw * 73) ?K,
       shm_trace = shm_trace ?s2 @ frame_stores 65 (?so + 8 + ?ttw * 73) ?ktw\<rparr>"
    unfolding update_symbol_def Let_def slot(1) a8 w1 prod.case w2
    using chk by simp
  also have "\<dots> = \<lparr>shm_bytes = memcpy (shm_bytes ?s1) (?so + 8) (?T @ ?K),
       shm_trace = shm_trace ?s1 @ frame_stores 41 (?so + 8) ?ttw @
         frame_stores 65 (?so + 8 + ?ttw * 73) ?ktw\<rparr>"
    using join by simp
  finally show ?thesis
    by (simp add: store_def payload_def)
qed

lemma frame_stores_bounds:
  assumes "(x, n) \<in> set (frame_stores sz a k)"
  shows "a \<le> x \<and> x + n \<le> a + k * (32 + sz)"
proof -
  from assms obtain j where j: "j < k"
    and x: "(x, n) = (a + j * (32 + sz), 32) \<or> (x, n) = (a + j * (32 + sz) + 32, sz)"
    by (auto simp: frame_stores_def)
  from j have "Suc j \<le> k" by simp
  then have "Suc j * (32 + sz) \<le> k * (32 + sz)" by (rule mult_le_mono1)
  then have "j * (32 + sz) + 32 + sz \<le> k * (32 + sz)" by (simp add: add.commute add.left_commute)
  with x show ?thesis by auto
qed

text \<open>The bytes, the header and the stores of one iteration.\<close>

lemma update_symbol_effect:
  assumes ok: "region_ok (shm_bytes s)" and i: "i < MAX_SYMBOLS" and c: "counts_ok symb"
  defines "so \<equiv> slot_offset (shm_bytes s) i"
    and "bs \<equiv> rd_size_t (shm_bytes s) off_buffer_size"
  defines "tot \<equiv> total_data_size symb bs"
  defines "n \<equiv> trades_to_write symb tot * 73 + klines_to_write symb tot * 97"
  shows "rd_size_t (shm_bytes (update_symbol symb i s)) so = tot"
    and "load (shm_bytes (update_symbol symb i s)) (so + 8) n = payload symb tot"
    and "\<And>a. a < so \<or> so + 8 + n \<le> a \<Longrightarrow> shm_bytes (update_symbol symb i s) a = shm_bytes s a"
    and "8 + n \<le> bs" and "n \<le> tot" and "tot \<le> bs - 8" and "length (payload symb tot) = n"
    and "\<exists>ws. shm_trace (update_symbol symb i s) = shm_trace s @ ws \<and>
           (\<forall>(a, k) \<in> set ws. so \<le> a \<and> a + k \<le> so + 8 + n)"
proof -
  let ?m = "shm_bytes s"
  let ?ttw = "trades_to_write symb tot" and ?ktw = "klines_to_write symb tot"
  note slot = region_ok_slot [OF ok i, folded so_def bs_def]
  have bs64: "bs < 2 ^ 64" unfolding bs_def by (rule rd_size_t_bound)
  from slot(4) have bs8: "sizeof_size_t \<le> bs" by (simp add: sizeof_size_t_def)
  have tot: "tot = min (count (trades symb) * 73 + count (klines symb) * 97) (bs - 8)"
    unfolding tot_def by (rule total_data_size_eq [OF c bs8 bs64])
  then show tot_le: "tot \<le> bs - 8" by simp
  with bs64 have tot64: "tot < 2 ^ 64" by simp
  note kf = klines_to_write_facts [OF c tot64]
  from kf(3) show n_le: "n \<le> tot" by (simp add: n_def)
  with tot_le slot(4) show fit: "8 + n \<le> bs" by simp
  have lenP: "length (payload symb tot) = n"
    using length_concat_frames [of encode_trade 41 "chrono (trades symb) ?ttw"]
      length_concat_frames [of encode_kline 65 "chrono (klines symb) ?ktw"]
    by (simp add: payload_def n_def)
  then show "length (payload symb tot) = n" .
  note spec = update_symbol_spec [OF ok i c, folded so_def bs_def, folded tot_def]
  have bytes: "shm_bytes (update_symbol symb i s) =
      memcpy (memcpy ?m so (enc_size_t tot)) (so + 8) (payload symb tot)"
    by (simp add: spec)
  have "rd_size_t (shm_bytes (update_symbol symb i s)) so = rd_size_t (memcpy ?m so (enc_size_t tot)) so"
    unfolding bytes rd_size_t_def sizeof_size_t_def
    by (rule arg_cong [where f = le_nat], rule load_memcpy_disjoint) simp
  also have "\<dots> = tot" using tot64 by (rule rd_size_t_memcpy_same)
  finally show "rd_size_t (shm_bytes (update_symbol symb i s)) so = tot" .
  show "load (shm_bytes (update_symbol symb i s)) (so + 8) n = payload symb tot"
    unfolding bytes using load_memcpy_same [of "memcpy ?m so (enc_size_t tot)" "so + 8" "payload symb tot"]
    by (simp add: lenP)
  show "shm_bytes (update_symbol symb i s) a = shm_bytes s a" if "a < so \<or> so + 8 + n \<le> a" for a
    unfolding bytes using that by (auto simp: memcpy_def lenP)
  have tr: "shm_trace (update_symbol symb i s) = shm_trace s @
       ((so, 8) # frame_stores 41 (so + 8) ?ttw @ frame_stores 65 (so + 8 + ?ttw * 73) ?ktw)"
    by (simp add: spec)
  have "\<forall>(a, k) \<in> set ((so, 8) # frame_stores 41 (so + 8) ?ttw @
           frame_stores 65 (so + 8 + ?ttw * 73) ?ktw). so \<le> a \<and> a + k \<le> so + 8 + n"
  proof (clarify, goal_cases)
    case (1 a k)
    then consider "(a, k) = (so, 8)" | "(a, k) \<in> set (frame_stores 41 (so + 8) ?ttw)"
      | "(a, k) \<in> set (frame_stores 65 (so + 8 + ?ttw * 73) ?ktw)"
      by auto
    then show ?case
    proof cases
      case 1
      then show ?thesis by simp
    next
      case 2
      from frame_stores_bounds [OF this] show ?thesis by (simp add: n_def)
    next
      case 3
      from frame_stores_bounds [OF this] show ?thesis by (simp add: n_def)
    qed
  qed
  with tr show "\<exists>ws. shm_trace (update_symbol symb i s) = shm_trace s @ ws \<and>
           (\<forall>(a, k) \<in> set ws. so \<le> a \<and> a + k \<le> so + 8 + n)"
    by blast
qed

lemma rd_size_t_cong:
  "(\<And>k. k < 8 \<Longrightarrow> m (a + k) = m' (a + k)) \<Longrightarrow> rd_size_t m a = rd_size_t m' a"
  unfolding rd_size_t_def sizeof_size_t_def
  by (rule arg_cong [where f = le_nat], rule load_eqI) simp

text \<open>An iteration leaves the header alone, so the layout it read is still there.\<close>

lemma update_symbol_header:
  assumes ok: "region_ok (shm_bytes s)" and i: "i < MAX_SYMBOLS" and c: "counts_ok symb"
  shows "\<And>a. a < 256 \<Longrightarrow> shm_bytes (update_symbol symb i s) a = shm_bytes s a"
    and "rd_size_t (shm_bytes (update_symbol symb i s)) off_data_offset
           = rd_size_t (shm_bytes s) off_data_offset"
    and "rd_size_t (shm_bytes (update_symbol symb i s)) off_buffer_size
           = rd_size_t (shm_bytes s) off_buffer_size"
    and "region_ok (shm_bytes (update_symbol symb i s))"
    and "\<And>j. slot_offset (shm_bytes (update_symbol symb i s)) j = slot_offset (shm_bytes s) j"
proof -
  note slot = region_ok_slot [OF ok i]
  note eff = update_symbol_effect [OF ok i c]
  show low: "shm_bytes (update_symbol symb i s) a = shm_bytes s a" if "a < 256" for a
    using eff(3) [of a] slot(3) that by simp
  show d: "rd_size_t (shm_bytes (update_symbol symb i s)) off_data_offset
           = rd_size_t (shm_bytes s) off_data_offset"
    by (rule rd_size_t_cong) (simp add: low off_data_offset_def)
  show b: "rd_size_t (shm_bytes (update_symbol symb i s)) off_buffer_size
           = rd_size_t (shm_bytes s) off_buffer_size"
    by (rule rd_size_t_cong) (simp add: low off_buffer_size_def)
  from ok show "region_ok (shm_bytes (update_symbol symb i s))"
    by (simp add: region_ok_def d b)
  show "slot_offset (shm_bytes (update_symbol symb i s)) j = slot_offset (shm_bytes s) j" for j
    by (simp add: slot_offset_def d b)
qed

section \<open>A pass over all symbols\<close>

lemma slot_offset_Suc:
  "slot_offset m (Suc i) = slot_offset m i + rd_size_t m off_buffer_size"
  by (simp add: slot_offset_def)

lemma slot_offset_mono: "i \<le> j \<Longrightarrow> slot_offset m i \<le> slot_offset m j"
  by (simp add: slot_offset_def mult_le_mono1)

lemma update_symbols_snoc:
  "update_symbols (xs @ [x]) i s = update_symbol x (i + length xs) (update_symbols xs i s)"
  by (induction xs arbitrary: i s) simp_all

lemma update_symbols_effect:
  "region_ok (shm_bytes s) \<Longrightarrow> i + length syms \<le> MAX_SYMBOLS \<Longrightarrow>
   \<forall>x \<in> set syms. counts_ok x \<Longrightarrow>
     region_ok (shm_bytes (update_symbols syms i s)) \<and>
     (\<forall>j. slot_offset (shm_bytes (update_symbols syms i s)) j = slot_offset (shm_bytes s) j) \<and>
     (\<forall>a. a < slot_offset (shm_bytes s) i \<or> slot_offset (shm_bytes s) (i + length syms) \<le> a
        \<longrightarrow> shm_bytes (update_symbols syms i s) a = shm_bytes s a) \<and>
     (\<exists>ws. shm_trace (update_symbols syms i s) = shm_trace s @ ws \<and>
        (\<forall>(a, k) \<in> set ws. slot_offset (shm_bytes s) i \<le> a \<and>
           a + k \<le> slot_offset (shm_bytes s) (i + length syms)))"
proof (induction syms arbitrary: i s)
  case Nil
  then show ?case by simp
next
  case (Cons x syms)
  let ?s1 = "update_symbol x i s"
  from Cons.prems have i: "i < MAX_SYMBOLS" and cx: "counts_ok x"
    and rest: "Suc i + length syms \<le> MAX_SYMBOLS" "\<forall>y \<in> set syms. counts_ok y"
    by simp_all
  note ok = Cons.prems(1)
  note eff = update_symbol_effect [OF ok i cx]
  note hdr = update_symbol_header [OF ok i cx]
  note ih = Cons.IH [OF hdr(4) rest, unfolded hdr(5)]
  from ih have ih1: "region_ok (shm_bytes (update_symbols syms (Suc i) (update_symbol x i s)))"
    by (rule conjunct1)
  from ih have ih2: "slot_offset (shm_bytes (update_symbols syms (Suc i) (update_symbol x i s))) j
      = slot_offset (shm_bytes s) j" for j
    by blast
  from ih have ih3: "a < slot_offset (shm_bytes s) (Suc i) \<or>
        slot_offset (shm_bytes s) (Suc i + length syms) \<le> a \<Longrightarrow>
      shm_bytes (update_symbols syms (Suc i) (update_symbol x i s)) a
        = shm_bytes (update_symbol x i s) a" for a
    by blast
  from ih have ih4: "\<exists>ws. shm_trace (update_symbols syms (Suc i) (update_symbol x i s)) =
        shm_trace (update_symbol x i s) @ ws \<and>
        (\<forall>(a, k) \<in> set ws. slot_offset (shm_bytes s) (Suc i) \<le> a \<and>
           a + k \<le> slot_offset (shm_bytes s) (Suc i + length syms))"
    by blast
  let ?so = "slot_offset (shm_bytes s)"
  have up: "?so i + 8 + (trades_to_write x (total_data_size x (rd_size_t (shm_bytes s) off_buffer_size)) * 73
       + klines_to_write x (total_data_size x (rd_size_t (shm_bytes s) off_buffer_size)) * 97)
       \<le> ?so (Suc i)"
    using eff(4) by (simp add: slot_offset_Suc)
  have mono: "?so i \<le> ?so (Suc i)" "?so (Suc i) \<le> ?so (Suc i + length syms)"
    by (simp_all add: slot_offset_mono)
  have g1: "region_ok (shm_bytes (update_symbols (x # syms) i s))"
    using ih1 by simp
  have g2: "\<forall>j. slot_offset (shm_bytes (update_symbols (x # syms) i s)) j = ?so j"
    using ih2 by simp
  have g3: "\<forall>a. a < ?so i \<or> ?so (i + length (x # syms)) \<le> a
        \<longrightarrow> shm_bytes (update_symbols (x # syms) i s) a = shm_bytes s a"
  proof (intro allI impI)
    fix a assume a: "a < ?so i \<or> ?so (i + length (x # syms)) \<le> a"
    with mono have "a < ?so (Suc i) \<or> ?so (Suc i + length syms) \<le> a" by auto
    then have "shm_bytes (update_symbols syms (Suc i) ?s1) a = shm_bytes ?s1 a"
      by (rule ih3)
    moreover from a up mono have "shm_bytes ?s1 a = shm_bytes s a"
      by (intro eff(3)) auto
    ultimately show "shm_bytes (update_symbols (x # syms) i s) a = shm_bytes s a" by simp
  qed
  from eff(8) obtain ws1 where ws1: "shm_trace ?s1 = shm_trace s @ ws1"
    and b1: "\<forall>(a, k) \<in> set ws1. ?so i \<le> a \<and> a + k \<le> ?so (Suc i)"
    using up by fastforce
  from ih4 obtain ws2 where ws2: "shm_trace (update_symbols syms (Suc i) ?s1) = shm_trace ?s1 @ ws2"
    and b2: "\<forall>(a, k) \<in> set ws2. ?so (Suc i) \<le> a \<and> a + k \<le> ?so (Suc i + length syms)"
    by auto
  have g4: "\<exists>ws. shm_trace (update_symbols (x # syms) i s) = shm_trace s @ ws \<and>
        (\<forall>(a, k) \<in> set ws. ?so i \<le> a \<and> a + k \<le> ?so (i + length (x # syms)))"
  proof (intro exI conjI)
    show "shm_trace (update_symbols (x # syms) i s) = shm_trace s @ (ws1 @ ws2)"
      by (simp add: ws1 ws2)
    show "\<forall>(a, k) \<in> set (ws1 @ ws2). ?so i \<le> a \<and> a + k \<le> ?so (i + length (x # syms))"
      using b1 b2 mono by fastforce
  qed
  from g1 g2 g3 g4 show ?case by blast
qed

lemma write_frames_trace:
  "\<exists>ws. shm_trace (snd (write_frames enc sz r js cur s)) = shm_trace s @ ws"
proof (induction js arbitrary: cur s)
  case Nil
  show ?case by simp
next
  case (Cons j js)
  let ?s2 = "store (size_add cur sizeof_message_header_t) (take sz (enc (records r ! walk_idx r j)))
      (store cur (encode_header (headers r ! walk_idx r j)) s)"
  from Cons [of "size_add (size_add cur sizeof_message_header_t) sz" ?s2]
  obtain ws where "shm_trace (snd (write_frames enc sz r (j # js) cur s)) = shm_trace ?s2 @ ws"
    by (auto simp: Let_def)
  then show ?case by (simp add: store_def)
qed

lemma update_symbol_trace: "\<exists>ws. shm_trace (update_symbol symb i s) = shm_trace s @ ws"
proof -
  let ?bs = "rd_size_t (shm_bytes s) off_buffer_size"
  let ?so = "size_add (rd_size_t (shm_bytes s) off_data_offset) (size_mul i ?bs)"
  let ?tot = "total_data_size symb ?bs"
  let ?s1 = "store ?so (enc_size_t ?tot) s"
  let ?w1 = "write_frames encode_trade sizeof_trade_record_t (trades symb)
      [0..<trades_to_write symb ?tot] (size_add ?so sizeof_size_t) ?s1"
  let ?w2 = "write_frames encode_kline sizeof_kline_record_t (klines symb)
      [0..<klines_to_write symb ?tot] (fst ?w1) (snd ?w1)"
  have eq: "update_symbol symb i s = (if size_add ?so sizeof_size_t > SHM_SIZE then s else snd ?w2)"
    by (simp add: update_symbol_def Let_def case_prod_unfold)
  obtain ws1 where w1: "shm_trace (snd ?w1) = shm_trace ?s1 @ ws1"
    using write_frames_trace by blast
  obtain ws2 where w2: "shm_trace (snd ?w2) = shm_trace (snd ?w1) @ ws2"
    using write_frames_trace by blast
  show ?thesis
  proof (cases "size_add ?so sizeof_size_t > SHM_SIZE")
    case True
    then show ?thesis by (simp add: eq)
  next
    case False
    have s1: "shm_trace ?s1 = shm_trace s @ [(?so, 8)]" by (simp add: store_def)
    from False have "update_symbol symb i s = snd ?w2" unfolding eq by (rule if_not_P)
    then have "shm_trace (update_symbol symb i s) = shm_trace (snd ?w2)" by (rule arg_cong)
    also note w2
    also note w1
    also note s1
    finally have "shm_trace (update_symbol symb i s) = shm_trace s @ ((?so, 8) # ws1 @ ws2)"
      by simp
    then show ?thesis ..
  qed
qed

lemma update_symbols_trace: "\<exists>ws. shm_trace (update_symbols syms i s) = shm_trace s @ ws"
proof (induction syms arbitrary: i s)
  case Nil
  show ?case by simp
next
  case (Cons x syms)
  from update_symbol_trace obtain ws1 where "shm_trace (update_symbol x i s) = shm_trace s @ ws1"
    by blast
  moreover from Cons obtain ws2 where
    "shm_trace (update_symbols syms (Suc i) (update_symbol x i s)) = shm_trace (update_symbol x i s) @ ws2"
    by blast
  ultimately have "shm_trace (update_symbols (x # syms) i s) = shm_trace s @ (ws1 @ ws2)" by simp
  then show ?case ..
qed

lemma rewrote_iff:
  "rewrote c (update_shared_memory now c) \<longleftrightarrow> shm_header_set c \<and> \<not> now - last_update_time c < 1"
proof -
  let ?s1 = "store off_last_update_time (enc64 (word_of_int now)) (shm c)"
  obtain ws where "shm_trace (update_symbols (symbols c) 0 ?s1) = shm_trace ?s1 @ ws"
    using update_symbols_trace by blast
  then show ?thesis
    by (simp add: rewrote_def update_shared_memory_def Let_def store_def)
qed

lemma update_shared_memory_last:
  "last_update_time (update_shared_memory now c) =
     (if shm_header_set c \<and> \<not> now - last_update_time c < 1 then now else last_update_time c)"
  by (simp add: update_shared_memory_def Let_def)

lemma update_shared_memory_header_set:
  "shm_header_set (update_shared_memory now c) = shm_header_set c"
  by (simp add: update_shared_memory_def Let_def)

lemma time_less: "time t + 1 \<le> time t' \<Longrightarrow> t < t'"
proof (rule ccontr)
  assume a: "time t + 1 \<le> time t'" and "\<not> t < t'"
  then have "t' \<le> t" by simp
  then have "t' div 1000 \<le> t div 1000" by (rule zdiv_mono1) simp
  with a show False by (simp add: time_def)
qed

lemma rewrite_instants_gap:
  "successively (\<lambda>t t'. time t + 1 \<le> time t') (rewrite_instants ts c) \<and>
   (\<forall>t \<in> set (take 1 (rewrite_instants ts c)). last_update_time c + 1 \<le> time t)"
proof (induction ts arbitrary: c)
  case Nil
  show ?case by simp
next
  case (Cons t ts)
  let ?c = "update_shared_memory (time t) c"
  note ih = Cons [of ?c]
  show ?case
  proof (cases "rewrote c ?c")
    case True
    then have g: "shm_header_set c" "\<not> time t - last_update_time c < 1"
      by (simp_all add: rewrote_iff)
    then have l: "last_update_time ?c = time t" by (simp add: update_shared_memory_last)
    from ih have hd: "\<forall>t' \<in> set (take 1 (rewrite_instants ts ?c)). time t + 1 \<le> time t'"
      by (simp add: l)
    have "successively (\<lambda>t t'. time t + 1 \<le> time t') (t # rewrite_instants ts ?c)"
    proof (cases "rewrite_instants ts ?c")
      case Nil
      then show ?thesis by simp
    next
      case (Cons t' ts')
      with hd ih show ?thesis by simp
    qed
    with True g show ?thesis by simp
  next
    case False
    then have "last_update_time ?c = last_update_time c"
      by (auto simp: rewrote_iff update_shared_memory_last)
    with ih False show ?thesis by simp
  qed
qed

section \<open>One invocation of the publisher\<close>

lemma store_time_effect:
  fixes s :: shm_t and w :: "64 word"
  defines "s1 \<equiv> store off_last_update_time (enc64 w) s"
  shows "\<And>a. a < 8 \<or> 16 \<le> a \<Longrightarrow> shm_bytes s1 a = shm_bytes s a"
    and "shm_trace s1 = shm_trace s @ [(off_last_update_time, 8)]"
    and "rd_size_t (shm_bytes s1) off_data_offset = rd_size_t (shm_bytes s) off_data_offset"
    and "rd_size_t (shm_bytes s1) off_buffer_size = rd_size_t (shm_bytes s) off_buffer_size"
    and "\<And>j. slot_offset (shm_bytes s1) j = slot_offset (shm_bytes s) j"
    and "region_ok (shm_bytes s) \<Longrightarrow> region_ok (shm_bytes s1)"
    and "write_counter (shm_bytes s1) = write_counter (shm_bytes s)"
proof -
  show out: "shm_bytes s1 a = shm_bytes s a" if "a < 8 \<or> 16 \<le> a" for a
    using that by (auto simp: s1_def store_def memcpy_def off_last_update_time_def)
  show "shm_trace s1 = shm_trace s @ [(off_last_update_time, 8)]"
    by (simp add: s1_def store_def)
  show d: "rd_size_t (shm_bytes s1) off_data_offset = rd_size_t (shm_bytes s) off_data_offset"
    by (rule rd_size_t_cong) (simp add: out off_data_offset_def)
  show b: "rd_size_t (shm_bytes s1) off_buffer_size = rd_size_t (shm_bytes s) off_buffer_size"
    by (rule rd_size_t_cong) (simp add: out off_buffer_size_def)
  show "slot_offset (shm_bytes s1) j = slot_offset (shm_bytes s) j" for j
    by (simp add: slot_offset_def d b)
  show "region_ok (shm_bytes s) \<Longrightarrow> region_ok (shm_bytes s1)"
    by (simp add: region_ok_def d b)
  have "load (shm_bytes s1) off_write_counter 8 = load (shm_bytes s) off_write_counter 8"
    by (rule load_eqI) (simp add: out off_write_counter_def)
  then show "write_counter (shm_bytes s1) = write_counter (shm_bytes s)"
    by (simp add: write_counter_def)
qed

lemma pass_state_0:
  "pass_state now c 0 = store off_last_update_time (enc64 (word_of_int now)) (shm c)"
  by (simp add: pass_state_def)

lemma pass_state_Suc:
  assumes "i < length (symbols c)"
  shows "pass_state now c (Suc i) = update_symbol (symbols c ! i) i (pass_state now c i)"
proof -
  from assms have "take (Suc i) (symbols c) = take i (symbols c) @ [symbols c ! i]"
    by (rule take_Suc_conv_app_nth)
  moreover from assms have "length (take i (symbols c)) = i" by simp
  ultimately show ?thesis
    unfolding pass_state_def using update_symbols_snoc [of "take i (symbols c)" "symbols c ! i" 0]
    by simp
qed

lemma update_shared_memory_pass:
  assumes "shm_header_set c" "\<not> now - last_update_time c < 1"
  shows "shm (update_shared_memory now c) =
           store off_write_counter
             (enc64 (write_counter (shm_bytes (pass_state now c (length (symbols c)))) + 1))
             (pass_state now c (length (symbols c)))"
  using assms
  by (simp add: update_shared_memory_def Let_def pass_state_def write_counter_def
      off_write_counter_def)

lemma pass_state_effect:
  assumes ok: "region_ok (shm_bytes (shm c))" and k: "k \<le> length (symbols c)"
    and n: "length (symbols c) \<le> MAX_SYMBOLS" and cs: "\<forall>x \<in> set (symbols c). counts_ok x"
  shows "region_ok (shm_bytes (pass_state now c k))"
    and "\<And>j. slot_offset (shm_bytes (pass_state now c k)) j = slot_offset (shm_bytes (shm c)) j"
    and "\<And>a. (a < 8 \<or> 16 \<le> a) \<and>
            (a < slot_offset (shm_bytes (shm c)) 0 \<or> slot_offset (shm_bytes (shm c)) k \<le> a) \<Longrightarrow>
          shm_bytes (pass_state now c k) a = shm_bytes (shm c) a"
    and "\<exists>ws. shm_trace (pass_state now c k) = shm_trace (shm c) @ (off_last_update_time, 8) # ws \<and>
          (\<forall>(a, n) \<in> set ws. slot_offset (shm_bytes (shm c)) 0 \<le> a \<and>
             a + n \<le> slot_offset (shm_bytes (shm c)) k)"
proof -
  let ?s1 = "store off_last_update_time (enc64 (word_of_int now)) (shm c)"
  note st = store_time_effect [where w = "word_of_int now" and s = "shm c"]
  from k n have len: "0 + length (take k (symbols c)) \<le> MAX_SYMBOLS" by simp
  from cs have cs': "\<forall>x \<in> set (take k (symbols c)). counts_ok x"
    by (meson in_set_takeD)
  from k have lk: "0 + length (take k (symbols c)) = k" by simp
  note eff = update_symbols_effect [OF st(6) [OF ok] len cs', unfolded st(5) lk, folded pass_state_def]
  from eff show "region_ok (shm_bytes (pass_state now c k))" by (rule conjunct1)
  from eff show "slot_offset (shm_bytes (pass_state now c k)) j = slot_offset (shm_bytes (shm c)) j" for j
    by blast
  from eff have out: "a < slot_offset (shm_bytes (shm c)) 0 \<or> slot_offset (shm_bytes (shm c)) k \<le> a \<Longrightarrow>
      shm_bytes (pass_state now c k) a = shm_bytes ?s1 a" for a
    by blast
  show "shm_bytes (pass_state now c k) a = shm_bytes (shm c) a"
    if "(a < 8 \<or> 16 \<le> a) \<and>
        (a < slot_offset (shm_bytes (shm c)) 0 \<or> slot_offset (shm_bytes (shm c)) k \<le> a)" for a
    using out [of a] st(1) [of a] that by simp
  from eff obtain ws where "shm_trace (pass_state now c k) = shm_trace ?s1 @ ws"
    and "\<forall>(a, n) \<in> set ws. slot_offset (shm_bytes (shm c)) 0 \<le> a \<and>
             a + n \<le> slot_offset (shm_bytes (shm c)) k"
    by blast
  then show "\<exists>ws. shm_trace (pass_state now c k) = shm_trace (shm c) @ (off_last_update_time, 8) # ws \<and>
          (\<forall>(a, n) \<in> set ws. slot_offset (shm_bytes (shm c)) 0 \<le> a \<and>
             a + n \<le> slot_offset (shm_bytes (shm c)) k)"
    by (simp add: st(2))
qed

section \<open>The region after \<open>init_shared_memory\<close>\<close>

lemma length_symbol_field [simp]: "length (symbol_field s) = 16"
  by (simp add: symbol_field_def MAX_SYMBOL_LENGTH_def)

lemma rd_size_t_memcpy_other:
  "a + 8 \<le> dst \<or> dst + length bs \<le> a \<Longrightarrow> rd_size_t (memcpy m dst bs) a = rd_size_t m a"
  unfolding rd_size_t_def sizeof_size_t_def
  by (rule arg_cong [where f = le_nat], rule load_memcpy_disjoint) simp

lemma copy_symbol_names_effect:
  "(\<forall>a. a < off_symbols i \<or> off_symbols (i + length xs) \<le> a \<longrightarrow>
      shm_bytes (copy_symbol_names xs i s) a = shm_bytes s a) \<and>
   (\<forall>k < length xs. load (shm_bytes (copy_symbol_names xs i s)) (off_symbols (i + k)) 16
      = symbol_field (name (xs ! k)))"
proof (induction xs arbitrary: i s)
  case Nil
  show ?case by simp
next
  case (Cons x xs)
  let ?s1 = "store (off_symbols i) (symbol_field (name x)) s"
  note ih = Cons [of "Suc i" ?s1]
  have o: "off_symbols (Suc i) = off_symbols i + 16" for i
    by (simp add: off_symbols_def MAX_SYMBOL_LENGTH_def)
  have m: "off_symbols i \<le> off_symbols (i + j)" for i j
    by (simp add: off_symbols_def)
  have out: "shm_bytes (copy_symbol_names (x # xs) i s) a = shm_bytes s a"
    if a: "a < off_symbols i \<or> off_symbols (i + length (x # xs)) \<le> a" for a
  proof -
    from a m [of "Suc i" "length xs"] have "a < off_symbols (Suc i) \<or> off_symbols (Suc i + length xs) \<le> a"
      by (auto simp: o)
    with ih have "shm_bytes (copy_symbol_names xs (Suc i) ?s1) a = shm_bytes ?s1 a" by blast
    moreover from a m [of "Suc i" "length xs"] have "shm_bytes ?s1 a = shm_bytes s a"
      by (auto simp: store_def memcpy_def o)
    ultimately show ?thesis by simp
  qed
  have names: "load (shm_bytes (copy_symbol_names (x # xs) i s)) (off_symbols (i + k)) 16
      = symbol_field (name ((x # xs) ! k))" if k: "k < length (x # xs)" for k
  proof (cases k)
    case 0
    have "load (shm_bytes (copy_symbol_names xs (Suc i) ?s1)) (off_symbols i) 16
        = load (shm_bytes ?s1) (off_symbols i) 16"
    proof (rule load_eqI)
      fix j :: nat assume "j < 16"
      then have "off_symbols i + j < off_symbols (Suc i)" by (simp add: o)
      with ih show "shm_bytes (copy_symbol_names xs (Suc i) ?s1) (off_symbols i + j)
          = shm_bytes ?s1 (off_symbols i + j)"
        by blast
    qed
    also have "\<dots> = symbol_field (name x)"
      using load_memcpy_same [of "shm_bytes s" "off_symbols i" "symbol_field (name x)"]
      by (simp add: store_def)
    finally show ?thesis using 0 by simp
  next
    case (Suc k')
    with k have "k' < length xs" by simp
    with ih have "load (shm_bytes (copy_symbol_names xs (Suc i) ?s1)) (off_symbols (Suc i + k')) 16
        = symbol_field (name (xs ! k'))"
      by blast
    with Suc show ?thesis by simp
  qed
  from out names show ?case by blast
qed

lemma init_shared_memory_region:
  fixes m0 :: memory and now :: int
  assumes n: "length (symbols c) \<le> MAX_SYMBOLS"
  defines "m \<equiv> shm_bytes (shm (init_shared_memory m0 now c))"
  shows "rd_size_t m off_data_offset = 256"
    and "rd_size_t m off_buffer_size = 6710860"
    and "rd_size_t m off_symbol_count = length (symbols c)"
    and "region_ok m"
    and "\<And>k. k < length (symbols c) \<Longrightarrow> load m (off_symbols k) 16 = symbol_field (name (symbols c ! k))"
    and "write_counter m = 0"
proof -
  let ?s0 = "\<lparr>shm_bytes = m0, shm_trace = []\<rparr>"
  let ?s1 = "store off_write_counter (enc64 0) ?s0"
  let ?s2 = "store off_last_update_time (enc64 (word_of_int now)) ?s1"
  let ?s3 = "store off_data_offset (enc_size_t sizeof_shared_memory_header_t) ?s2"
  have d3: "rd_size_t (shm_bytes ?s3) off_data_offset = 256"
    using rd_size_t_memcpy_same [of 256 "shm_bytes ?s2" off_data_offset]
    by (simp add: store_def sizeof_shared_memory_header_t_def)
  have "(256::nat) \<le> 67108864" "(67108864::nat) < 2 ^ 64" by simp_all
  from size_sub_small [OF this] have sub: "size_sub SHM_SIZE 256 div MAX_SYMBOLS = 6710860"
    by (simp add: SHM_SIZE_def MAX_SYMBOLS_def)
  let ?s4 = "store off_buffer_size (enc_size_t 6710860) ?s3"
  let ?s5 = "store off_symbol_count (enc_size_t (length (symbols c))) ?s4"
  have m: "m = shm_bytes (copy_symbol_names (symbols c) 0 ?s5)"
    by (simp add: m_def init_shared_memory_def Let_def d3 sub)
  note cp = copy_symbol_names_effect [of 0 "symbols c" ?s5]
  have low: "m a = shm_bytes ?s5 a" if "a < 40" for a
    unfolding m using cp that by (simp add: off_symbols_def)
  from n have n64: "length (symbols c) < 2 ^ 64" by (simp add: MAX_SYMBOLS_def)
  have "rd_size_t m off_data_offset = rd_size_t (shm_bytes ?s5) off_data_offset"
    by (rule rd_size_t_cong) (simp add: low off_data_offset_def)
  also have "\<dots> = rd_size_t (shm_bytes ?s3) off_data_offset"
    by (simp add: store_def rd_size_t_memcpy_other off_data_offset_def off_buffer_size_def
        off_symbol_count_def)
  finally show d: "rd_size_t m off_data_offset = 256" by (simp only: d3)
  have "rd_size_t m off_buffer_size = rd_size_t (shm_bytes ?s5) off_buffer_size"
    by (rule rd_size_t_cong) (simp add: low off_buffer_size_def)
  also have "\<dots> = rd_size_t (shm_bytes ?s4) off_buffer_size"
    by (simp add: store_def rd_size_t_memcpy_other off_buffer_size_def off_symbol_count_def)
  also have "\<dots> = 6710860"
    using rd_size_t_memcpy_same [of 6710860 "shm_bytes ?s3" off_buffer_size]
    by (simp add: store_def)
  finally show b: "rd_size_t m off_buffer_size = 6710860" .
  have "rd_size_t m off_symbol_count = rd_size_t (shm_bytes ?s5) off_symbol_count"
    by (rule rd_size_t_cong) (simp add: low off_symbol_count_def)
  also have "\<dots> = length (symbols c)"
    using rd_size_t_memcpy_same [OF n64, of "shm_bytes ?s4" off_symbol_count]
    by (simp add: store_def)
  finally show "rd_size_t m off_symbol_count = length (symbols c)" .
  show "region_ok m"
    by (simp add: region_ok_def d b sizeof_shared_memory_header_t_def sizeof_size_t_def
        MAX_SYMBOLS_def SHM_SIZE_def)
  show "load m (off_symbols k) 16 = symbol_field (name (symbols c ! k))" if "k < length (symbols c)" for k
    unfolding m using cp that by simp
  have "load m off_write_counter 8 = load (shm_bytes ?s5) off_write_counter 8"
    by (rule load_eqI) (simp add: low off_write_counter_def)
  also have "\<dots> = load (shm_bytes ?s1) off_write_counter 8"
    by (simp add: store_def load_memcpy_disjoint off_write_counter_def off_last_update_time_def
        off_data_offset_def off_buffer_size_def off_symbol_count_def)
  also have "\<dots> = enc64 0"
    using load_memcpy_same [of m0 off_write_counter "enc64 0"] by (simp add: store_def)
  finally show "write_counter m = 0" by (simp add: write_counter_def)
qed

lemma init_shared_memory_fields:
  "symbols (init_shared_memory m0 now c) = symbols c"
  "shm_header_set (init_shared_memory m0 now c)"
  "last_update_time (init_shared_memory m0 now c) = last_update_time c"
  by (simp_all add: init_shared_memory_def Let_def)

section \<open>Invariants of the collector state\<close>

lemma handle_aggTrade_fields:
  "shm (handle_aggTrade r symbol ok fl now c) = shm c"
  "shm_header_set (handle_aggTrade r symbol ok fl now c) = shm_header_set c"
  "last_update_time (handle_aggTrade r symbol ok fl now c) = last_update_time c"
  "length (symbols (handle_aggTrade r symbol ok fl now c)) = length (symbols c)"
  by (simp_all add: handle_aggTrade_def Let_def split: option.splits)

lemma handle_kline_fields:
  "shm (handle_kline k symbol ok fl now c) = shm c"
  "shm_header_set (handle_kline k symbol ok fl now c) = shm_header_set c"
  "last_update_time (handle_kline k symbol ok fl now c) = last_update_time c"
  "length (symbols (handle_kline k symbol ok fl now c)) = length (symbols c)"
  by (simp_all add: handle_kline_def Let_def split: option.splits)

lemma count_ring_store: "count r \<le> MAX_RECORDS_PER_SYMBOL \<Longrightarrow> count (ring_store x h r) \<le> MAX_RECORDS_PER_SYMBOL"
  by (simp add: ring_store_def Let_def)

lemma counts_ok_handle_aggTrade:
  assumes "\<forall>x \<in> set (symbols c). counts_ok x"
  shows "\<forall>x \<in> set (symbols (handle_aggTrade r symbol ok fl now c)). counts_ok x"
proof (cases "find_symbol 0 (symbols c) symbol")
  case None
  with assms show ?thesis by (simp add: handle_aggTrade_def)
next
  case (Some i)
  from find_symbol_Some [OF Some] have i: "i < length (symbols c)" by simp
  with assms have ci: "counts_ok (symbols c ! i)" by simp
  show ?thesis
  proof (cases ok)
    case False
    let ?x = "(symbols c ! i)\<lparr>trade_file := fflush fl (trade_file (symbols c ! i))\<rparr>"
    from ci have "counts_ok ?x" by (simp add: counts_ok_def)
    moreover have "symbols (handle_aggTrade r symbol ok fl now c) = (symbols c)[i := ?x]"
      using False Some by (simp add: handle_aggTrade_def Let_def)
    ultimately show ?thesis using assms by (auto dest!: set_update_subset_insert [THEN subsetD])
  next
    case True
    let ?x = "(symbols c ! i)\<lparr>trade_count := trade_count (symbols c ! i) + 1,
        message_count := message_count (symbols c ! i) + 1,
        bytes_processed := bytes_processed (symbols c ! i) + of_nat sizeof_trade_record_t,
        trades := ring_store r (trade_header symbol now) (trades (symbols c ! i)),
        trade_file := fflush fl (fwrite r (trade_file (symbols c ! i)))\<rparr>"
    from ci have "counts_ok ?x" by (simp add: counts_ok_def count_ring_store)
    moreover have "symbols (handle_aggTrade r symbol ok fl now c) = (symbols c)[i := ?x]"
      using True Some by (simp add: handle_aggTrade_def Let_def)
    ultimately show ?thesis using assms by (auto dest!: set_update_subset_insert [THEN subsetD])
  qed
qed

lemma counts_ok_handle_kline:
  assumes "\<forall>x \<in> set (symbols c). counts_ok x"
  shows "\<forall>x \<in> set (symbols (handle_kline k symbol ok fl now c)). counts_ok x"
proof (cases "find_symbol 0 (symbols c) symbol")
  case None
  with assms show ?thesis by (simp add: handle_kline_def)
next
  case (Some i)
  from find_symbol_Some [OF Some] have i: "i < length (symbols c)" by simp
  with assms have ci: "counts_ok (symbols c ! i)" by simp
  show ?thesis
  proof (cases "ok \<and> k \<noteq> None")
    case False
    show ?thesis
    proof (cases k)
      case None
      with assms Some show ?thesis by (simp add: handle_kline_def)
    next
      case k: (Some r)
      let ?x = "(symbols c ! i)\<lparr>kline_file := fflush fl (kline_file (symbols c ! i))\<rparr>"
      from ci have "counts_ok ?x" by (simp add: counts_ok_def)
      moreover have "symbols (handle_kline k symbol ok fl now c) = (symbols c)[i := ?x]"
        using False k Some by (simp add: handle_kline_def Let_def)
      ultimately show ?thesis using assms by (auto dest!: set_update_subset_insert [THEN subsetD])
    qed
  next
    case True
    then obtain r where k: "k = Some r" and ok: ok by auto
    let ?x = "(symbols c ! i)\<lparr>kline_count := kline_count (symbols c ! i) + 1,
        message_count := message_count (symbols c ! i) + 1,
        bytes_processed := bytes_processed (symbols c ! i) + of_nat sizeof_kline_record_t,
        klines := ring_store r (kline_header symbol now) (klines (symbols c ! i)),
        kline_file := fflush fl (fwrite r (kline_file (symbols c ! i)))\<rparr>"
    from ci have "counts_ok ?x" by (simp add: counts_ok_def count_ring_store)
    moreover have "symbols (handle_kline k symbol ok fl now c) = (symbols c)[i := ?x]"
      using k ok Some by (simp add: handle_kline_def Let_def)
    ultimately show ?thesis using assms by (auto dest!: set_update_subset_insert [THEN subsetD])
  qed
qed

lemma counts_ok_init: "counts_ok (init_symbol_data x)"
  by (simp add: counts_ok_def init_symbol_data_def zero_ring_def)

section \<open>The concrete run: facts\<close>

lemma collector0_facts:
  "length (symbols collector0) = 1" "\<forall>x \<in> set (symbols collector0). counts_ok x"
  "last_update_time collector0 = 0"
  by (simp_all add: collector0_def counts_ok_init)

lemma collector1_facts:
  "shm_header_set collector1" "region_ok (shm_bytes (shm collector1))"
  "length (symbols collector1) = 1" "\<forall>x \<in> set (symbols collector1). counts_ok x"
  "last_update_time collector1 = 0" "symbols collector1 = symbols collector0"
  "rd_size_t (shm_bytes (shm collector1)) off_data_offset = 256"
  "rd_size_t (shm_bytes (shm collector1)) off_buffer_size = 6710860"
  "rd_size_t (shm_bytes (shm collector1)) off_symbol_count = 1"
  "write_counter (shm_bytes (shm collector1)) = 0"
proof -
  have n: "length (symbols collector0) \<le> MAX_SYMBOLS"
    by (simp add: collector0_facts MAX_SYMBOLS_def)
  note r = init_shared_memory_region [OF n, where ?m0.0 = "\<lambda>a. 0" and now = 1700000000,
      folded collector1_def]
  show "shm_header_set collector1" "length (symbols collector1) = 1"
    "\<forall>x \<in> set (symbols collector1). counts_ok x" "last_update_time collector1 = 0"
    "symbols collector1 = symbols collector0"
    by (simp_all add: collector1_def init_shared_memory_fields collector0_facts)
  from r show "region_ok (shm_bytes (shm collector1))"
    "rd_size_t (shm_bytes (shm collector1)) off_data_offset = 256"
    "rd_size_t (shm_bytes (shm collector1)) off_buffer_size = 6710860"
    "rd_size_t (shm_bytes (shm collector1)) off_symbol_count = 1"
    "write_counter (shm_bytes (shm collector1)) = 0"
    by (simp_all add: collector0_facts)
qed

section \<open>Frame of a pass\<close>

text \<open>
  C10. In an invocation that rewrites the region, with the header laid out as
  \<open>init_shared_memory\<close> does and at most \<open>MAX_SYMBOLS\<close> symbols whose counts are in range:
  the iteration for symbol \<open>i\<close> changes no byte outside
  \<open>[data_offset + i * buffer_size, data_offset + (i + 1) * buffer_size)\<close>; the pass as a whole
  changes no byte from offset 16 up to \<open>data_offset\<close> (the header fields after
  \<open>write_counter\<close> and \<open>last_update_time\<close>) and no byte past the slots of the tracked symbols;
  what it stores outside the slots is \<open>last_update_time\<close> before the first iteration and
  \<open>write_counter\<close> after the last.
\<close>

theorem publisher_pass_frame:
  assumes hs: "shm_header_set c" and gate: "\<not> now - last_update_time c < 1"
    and ok: "region_ok (shm_bytes (shm c))" and n: "length (symbols c) \<le> MAX_SYMBOLS"
    and cs: "\<forall>x \<in> set (symbols c). counts_ok x"
  shows "pass_state now c 0 = store off_last_update_time (enc64 (word_of_int now)) (shm c) \<and>
    (\<forall>i < length (symbols c).
       pass_state now c (Suc i) = update_symbol (symbols c ! i) i (pass_state now c i) \<and>
       (\<forall>a. a < slot_offset (shm_bytes (shm c)) i \<or> slot_offset (shm_bytes (shm c)) (Suc i) \<le> a
          \<longrightarrow> shm_bytes (pass_state now c (Suc i)) a = shm_bytes (pass_state now c i) a)) \<and>
    shm (update_shared_memory now c) =
      store off_write_counter
        (enc64 (write_counter (shm_bytes (pass_state now c (length (symbols c)))) + 1))
        (pass_state now c (length (symbols c))) \<and>
    (\<forall>a. 16 \<le> a \<and> a < rd_size_t (shm_bytes (shm c)) off_data_offset
       \<longrightarrow> shm_bytes (shm (update_shared_memory now c)) a = shm_bytes (shm c) a) \<and>
    (\<forall>a. slot_offset (shm_bytes (shm c)) (length (symbols c)) \<le> a
       \<longrightarrow> shm_bytes (shm (update_shared_memory now c)) a = shm_bytes (shm c) a)"
proof -
  let ?m = "shm_bytes (shm c)"
  let ?n = "length (symbols c)"
  note fin = update_shared_memory_pass [OF hs gate]
  note all = pass_state_effect [OF ok le_refl n cs, where now = now]
  from ok have d: "256 \<le> rd_size_t ?m off_data_offset"
    by (simp add: region_ok_def sizeof_shared_memory_header_t_def)
  have s0: "slot_offset ?m 0 = rd_size_t ?m off_data_offset" by (simp add: slot_offset_def)
  have iter: "pass_state now c (Suc i) = update_symbol (symbols c ! i) i (pass_state now c i) \<and>
       (\<forall>a. a < slot_offset ?m i \<or> slot_offset ?m (Suc i) \<le> a
          \<longrightarrow> shm_bytes (pass_state now c (Suc i)) a = shm_bytes (pass_state now c i) a)"
    if i: "i < ?n" for i
  proof -
    from i have ik: "i \<le> ?n" by simp
    note st = pass_state_effect [OF ok ik n cs, where now = now]
    from i n have im: "i < MAX_SYMBOLS" by simp
    from i cs have ci: "counts_ok (symbols c ! i)" by simp
    note eff = update_symbol_effect [OF st(1) im ci, unfolded st(2)]
    note suc = pass_state_Suc [OF i, where now = now]
    have "shm_bytes (pass_state now c (Suc i)) a = shm_bytes (pass_state now c i) a"
      if a: "a < slot_offset ?m i \<or> slot_offset ?m (Suc i) \<le> a" for a
    proof -
      from eff(4) a have "a < slot_offset ?m i \<or>
        slot_offset ?m i + 8 +
          (trades_to_write (symbols c ! i)
             (total_data_size (symbols c ! i) (rd_size_t (shm_bytes (pass_state now c i)) off_buffer_size)) * 73 +
           klines_to_write (symbols c ! i)
             (total_data_size (symbols c ! i) (rd_size_t (shm_bytes (pass_state now c i)) off_buffer_size)) * 97)
          \<le> a"
        using st(2) [of "Suc i"] st(2) [of i]
        by (auto simp: slot_offset_Suc)
      from eff(3) [OF this] show ?thesis by (simp only: suc)
    qed
    with suc show ?thesis by blast
  qed
  have hdr: "shm_bytes (shm (update_shared_memory now c)) a = ?m a"
    if a: "16 \<le> a \<and> a < rd_size_t ?m off_data_offset" for a
  proof -
    from a have "shm_bytes (pass_state now c ?n) a = ?m a"
      by (intro all(3)) (simp add: s0)
    with a show ?thesis
      by (simp add: fin store_def memcpy_def off_write_counter_def)
  qed
  have past: "shm_bytes (shm (update_shared_memory now c)) a = ?m a"
    if a: "slot_offset ?m ?n \<le> a" for a
  proof -
    from slot_offset_mono [of 0 ?n ?m] a d have a': "256 \<le> a" by (simp add: s0)
    with a have "shm_bytes (pass_state now c ?n) a = ?m a"
      by (intro all(3)) simp
    with a' show ?thesis
      by (simp add: fin store_def memcpy_def off_write_counter_def)
  qed
  from pass_state_0 iter fin hdr past show ?thesis by blast
qed


lemma collector1_gate: "\<not> 1700000001 - last_update_time collector1 < 1"
  by (simp add: collector1_facts)

lemma collector1_n: "length (symbols collector1) \<le> MAX_SYMBOLS"
  by (simp add: collector1_facts(3) MAX_SYMBOLS_def)

theorem publisher_pass_frame_witness:
  "shm_header_set collector1 \<and> \<not> 1700000001 - last_update_time collector1 < 1 \<and>
   region_ok (shm_bytes (shm collector1)) \<and> length (symbols collector1) \<le> MAX_SYMBOLS \<and>
   list_all counts_ok (symbols collector1) \<and>
   shm_bytes (shm (update_shared_memory 1700000001 collector1)) 32 = shm_bytes (shm collector1) 32 \<and>
   shm_bytes (pass_state 1700000001 collector1 1) 6711116
     = shm_bytes (pass_state 1700000001 collector1 0) 6711116"
proof -
  note t = publisher_pass_frame [OF collector1_facts(1) collector1_gate collector1_facts(2)
      collector1_n collector1_facts(4)]
  from t have "\<forall>a. 16 \<le> a \<and> a < rd_size_t (shm_bytes (shm collector1)) off_data_offset
       \<longrightarrow> shm_bytes (shm (update_shared_memory 1700000001 collector1)) a = shm_bytes (shm collector1) a"
    by blast
  then have a: "shm_bytes (shm (update_shared_memory 1700000001 collector1)) 32 = shm_bytes (shm collector1) 32"
    by (simp add: collector1_facts)
  from t have "\<forall>i < length (symbols collector1).
       (\<forall>a. a < slot_offset (shm_bytes (shm collector1)) i \<or> slot_offset (shm_bytes (shm collector1)) (Suc i) \<le> a
          \<longrightarrow> shm_bytes (pass_state 1700000001 collector1 (Suc i)) a = shm_bytes (pass_state 1700000001 collector1 i) a)"
    by blast
  then have "\<forall>a. a < slot_offset (shm_bytes (shm collector1)) 0 \<or> slot_offset (shm_bytes (shm collector1)) (Suc 0) \<le> a
          \<longrightarrow> shm_bytes (pass_state 1700000001 collector1 (Suc 0)) a = shm_bytes (pass_state 1700000001 collector1 0) a"
    by (simp add: collector1_facts(3))
  then have b: "shm_bytes (pass_state 1700000001 collector1 1) 6711116
     = shm_bytes (pass_state 1700000001 collector1 0) 6711116"
    by (simp add: slot_offset_def collector1_facts)
  from a b collector1_facts(4) show ?thesis
    by (simp add: collector1_facts(1,2) collector1_gate collector1_n list_all_iff)
qed

section \<open>Order of the stores of an invocation, and the gap between rewrites\<close>

lemma write_counter_store:
  "write_counter (shm_bytes (store off_write_counter (enc64 w) s)) = w"
  using load_memcpy_same [of "shm_bytes s" off_write_counter "enc64 w"]
  by (simp add: write_counter_def store_def)

text \<open>
  C7, as the code has it. The \<open>atomic_store\<close> into \<open>last_update_time\<close> and the
  \<open>atomic_fetch_add\<close> on \<open>write_counter\<close> are each one 8-byte store of the log. Every
  invocation stores \<open>last_update_time\<close> first. When \<open>time(NULL)\<close> has not advanced since the
  last rewrite, nothing else is stored. Otherwise the slots are written, all stores falling
  into the slots, and the store that increments \<open>write_counter\<close> is the last one. In any run
  of invocations, between two successive rewrites \<open>time(NULL)\<close> has advanced by at least 1, so
  the second comes later than the first; how much later is not bounded by a second, as
  \<open>time(NULL)\<close> counts whole seconds.
\<close>

theorem publisher_store_order_and_gap:
  assumes hs: "shm_header_set c"
    and ok: "region_ok (shm_bytes (shm c))" and n: "length (symbols c) \<le> MAX_SYMBOLS"
    and cs: "\<forall>x \<in> set (symbols c). counts_ok x"
  shows "(now - last_update_time c < 1 \<longrightarrow>
            shm_trace (shm (update_shared_memory now c))
              = shm_trace (shm c) @ [(off_last_update_time, 8)] \<and>
            last_update_time (update_shared_memory now c) = last_update_time c \<and>
            write_counter (shm_bytes (shm (update_shared_memory now c)))
              = write_counter (shm_bytes (shm c))) \<and>
         (\<not> now - last_update_time c < 1 \<longrightarrow>
            (\<exists>ws. shm_trace (shm (update_shared_memory now c))
                = shm_trace (shm c) @ (off_last_update_time, 8) # ws @ [(off_write_counter, 8)] \<and>
              (\<forall>(a, k) \<in> set ws. slot_offset (shm_bytes (shm c)) 0 \<le> a \<and>
                 a + k \<le> slot_offset (shm_bytes (shm c)) (length (symbols c)))) \<and>
            last_update_time (update_shared_memory now c) = now \<and>
            write_counter (shm_bytes (shm (update_shared_memory now c)))
              = write_counter (shm_bytes (shm c)) + 1) \<and>
         successively (\<lambda>t t'. time t + 1 \<le> time t' \<and> t < t') (rewrite_instants ts c)"
proof (intro conjI impI)
  let ?c = "update_shared_memory now c"
  note st = store_time_effect [where w = "word_of_int now" and s = "shm c"]
  {
    assume g: "now - last_update_time c < 1"
    with hs have sh: "shm ?c = store off_last_update_time (enc64 (word_of_int now)) (shm c)"
      by (simp add: update_shared_memory_def Let_def)
    show "shm_trace (shm ?c) = shm_trace (shm c) @ [(off_last_update_time, 8)]"
      unfolding sh by (rule st(2))
    from g show "last_update_time ?c = last_update_time c"
      by (simp add: update_shared_memory_last)
    show "write_counter (shm_bytes (shm ?c)) = write_counter (shm_bytes (shm c))"
      unfolding sh by (rule st(7))
  }
  {
    assume g: "\<not> now - last_update_time c < 1"
    note fin = update_shared_memory_pass [OF hs g]
    note all = pass_state_effect [OF ok le_refl n cs, where now = now]
    from all(4) obtain ws where
      ws: "shm_trace (pass_state now c (length (symbols c)))
             = shm_trace (shm c) @ (off_last_update_time, 8) # ws"
      and b: "\<forall>(a, k) \<in> set ws. slot_offset (shm_bytes (shm c)) 0 \<le> a \<and>
             a + k \<le> slot_offset (shm_bytes (shm c)) (length (symbols c))"
      by blast
    have "shm_trace (shm ?c) = shm_trace (shm c) @ (off_last_update_time, 8) # ws @ [(off_write_counter, 8)]"
      by (simp add: fin store_def ws)
    with b show "\<exists>ws. shm_trace (shm ?c)
                = shm_trace (shm c) @ (off_last_update_time, 8) # ws @ [(off_write_counter, 8)] \<and>
              (\<forall>(a, k) \<in> set ws. slot_offset (shm_bytes (shm c)) 0 \<le> a \<and>
                 a + k \<le> slot_offset (shm_bytes (shm c)) (length (symbols c)))"
      by blast
    from hs g show "last_update_time ?c = now"
      by (simp add: update_shared_memory_last)
    from ok have d: "256 \<le> slot_offset (shm_bytes (shm c)) 0"
      by (simp add: region_ok_def sizeof_shared_memory_header_t_def slot_offset_def)
    have "load (shm_bytes (pass_state now c (length (symbols c)))) off_write_counter 8
        = load (shm_bytes (shm c)) off_write_counter 8"
    proof (rule load_eqI)
      fix k :: nat assume "k < 8"
      with d show "shm_bytes (pass_state now c (length (symbols c))) (off_write_counter + k)
          = shm_bytes (shm c) (off_write_counter + k)"
        by (intro all(3)) (simp add: off_write_counter_def)
    qed
    then have "write_counter (shm_bytes (pass_state now c (length (symbols c))))
        = write_counter (shm_bytes (shm c))"
      by (simp add: write_counter_def)
    then show "write_counter (shm_bytes (shm ?c)) = write_counter (shm_bytes (shm c)) + 1"
      unfolding fin by (simp only: write_counter_store)
  }
  from rewrite_instants_gap [of ts c]
  have "successively (\<lambda>t t'. time t + 1 \<le> time t') (rewrite_instants ts c)"
    by (rule conjunct1)
  then show "successively (\<lambda>t t'. time t + 1 \<le> time t' \<and> t < t') (rewrite_instants ts c)"
    by (rule successively_mono) (simp add: time_less)
qed

lemma fits_no_truncation:
  assumes c: "counts_ok symb" and b8: "sizeof_size_t \<le> bs" and b64: "bs < 2 ^ 64"
    and fit: "count (trades symb) * 73 + count (klines symb) * 97 \<le> bs - 8"
  shows "total_data_size symb bs = count (trades symb) * 73 + count (klines symb) * 97"
    and "trades_to_write symb (total_data_size symb bs) = count (trades symb)"
    and "klines_to_write symb (total_data_size symb bs) = count (klines symb)"
proof -
  from fit show t: "total_data_size symb bs = count (trades symb) * 73 + count (klines symb) * 97"
    by (simp add: total_data_size_eq [OF c b8 b64])
  have le: "count (trades symb) * 73 + count (klines symb) * 97 \<le> total_data_size symb bs"
    by (simp add: t)
  then have "count (trades symb) * 73 \<le> total_data_size symb bs" by simp
  then show "trades_to_write symb (total_data_size symb bs) = count (trades symb)"
    by (rule trades_to_write_facts(4) [OF c])
  from fit b64 have "total_data_size symb bs < 2 ^ 64" by (simp add: t)
  from klines_to_write_facts(4) [OF c this le]
  show "klines_to_write symb (total_data_size symb bs) = count (klines symb)" .
qed

lemma find_symbol_collector1: "find_symbol 0 (symbols collector1) BTCUSDT = Some 0"
  by (simp add: collector1_facts(6) find_symbol_collector0)

lemma collector_1trade_facts:
  "shm collector_1trade = shm collector1" "shm_header_set collector_1trade"
  "last_update_time collector_1trade = 0" "length (symbols collector_1trade) = 1"
  "\<forall>x \<in> set (symbols collector_1trade). counts_ok x"
  "count (trades (symbols collector_1trade ! 0)) = 1"
  "count (klines (symbols collector_1trade ! 0)) = 0"
  "region_ok (shm_bytes (shm collector_1trade))"
proof -
  show "shm collector_1trade = shm collector1" "shm_header_set collector_1trade"
    "last_update_time collector_1trade = 0" "length (symbols collector_1trade) = 1"
    by (simp_all add: collector_1trade_def handle_aggTrade_fields collector1_facts(1,3,5))
  then show "region_ok (shm_bytes (shm collector_1trade))"
    by (simp add: collector1_facts(2))
  show "\<forall>x \<in> set (symbols collector_1trade). counts_ok x"
    unfolding collector_1trade_def by (rule counts_ok_handle_aggTrade) (rule collector1_facts(4))
  show "count (trades (symbols collector_1trade ! 0)) = 1"
    "count (klines (symbols collector_1trade ! 0)) = 0"
    by (simp_all add: collector_1trade_def handle_aggTrade_def find_symbol_collector1 Let_def
        collector1_facts(6) collector0_def init_symbol_data_def ring_store_def zero_ring_def
        MAX_RECORDS_PER_SYMBOL_def)
qed

lemma rewrite_instants_half_second:
  "rewrite_instants [1700000001700, 1700000002200] collector_1trade
     = [1700000001700, 1700000002200]"
proof -
  let ?c = "update_shared_memory (time 1700000001700) collector_1trade"
  have t: "time 1700000001700 = 1700000001" "time 1700000002200 = 1700000002"
    by (simp_all add: time_def)
  note f = collector_1trade_facts(2,3)
  have 1: "rewrote collector_1trade ?c" by (simp add: rewrote_iff f t)
  have "last_update_time ?c = 1700000001" by (simp add: update_shared_memory_last f t)
  then have "rewrote ?c (update_shared_memory (time 1700000002200) ?c)"
    by (simp add: rewrote_iff update_shared_memory_header_set f t(2))
  with 1 show ?thesis by simp
qed

text \<open>
  C7 as stated fails, twice. In an invocation that rewrites the region, the store into
  \<open>last_update_time\<close> (offset 8) is the first one, ahead of the size field (offset 256) and the
  frame (offsets 264 and 296) of the slot; the store into \<open>write_counter\<close> (offset 0) is the
  last one. And two invocations half a second apart, at 1700000001.7 s and 1700000002.2 s, as
  the timer of 500 ms makes them, both rewrite the region: \<open>time(NULL)\<close> has advanced from
  1700000001 to 1700000002 between them.
\<close>

theorem last_update_time_first_and_rewrites_half_a_second_apart:
  "drop (length (shm_trace (shm collector_1trade)))
     (shm_trace (shm (update_shared_memory 1700000002 collector_1trade)))
   = [(8, 8), (256, 8), (264, 32), (296, 41), (0, 8)] \<and>
   rewrite_instants [1700000001700, 1700000002200] collector_1trade
     = [1700000001700, 1700000002200] \<and>
   1700000002200 - 1700000001700 < (1000 :: int)"
proof -
  let ?c = collector_1trade
  let ?now = "1700000002 :: int"
  let ?x = "symbols ?c ! 0"
  note f = collector_1trade_facts
  have gate: "\<not> ?now - last_update_time ?c < 1" by (simp add: f(3))
  have n: "length (symbols ?c) \<le> MAX_SYMBOLS" by (simp add: f(4) MAX_SYMBOLS_def)
  have i: "0 < MAX_SYMBOLS" by (simp add: MAX_SYMBOLS_def)
  have i0: "0 < length (symbols ?c)" by (simp add: f(4))
  have cx: "counts_ok ?x" using f(5) i0 by simp
  note fin = update_shared_memory_pass [OF f(2) gate, unfolded f(4)]
  note p0 = pass_state_effect [OF f(8) le0 n f(5), where now = ?now]
  note p1 = pass_state_Suc [OF i0, where now = ?now]
  have bs: "rd_size_t (shm_bytes (pass_state ?now ?c 0)) off_buffer_size = 6710860"
    by (simp add: pass_state_0 store_time_effect(4) f(1) collector1_facts(8))
  have so: "slot_offset (shm_bytes (pass_state ?now ?c 0)) 0 = 256"
    unfolding p0(2) by (simp add: slot_offset_def f(1) collector1_facts(7))
  have "sizeof_size_t \<le> (6710860::nat)" "(6710860::nat) < 2 ^ 64"
    "count (trades ?x) * 73 + count (klines ?x) * 97 \<le> 6710860 - 8"
    by (simp_all add: sizeof_size_t_def f(6,7))
  note fit = fits_no_truncation [OF cx this]
  note spec = update_symbol_spec [OF p0(1) i cx, unfolded bs so, unfolded fit(2,3),
      unfolded fit(1) f(6,7)]
  have "shm_trace (pass_state ?now ?c 1) =
      shm_trace (shm ?c) @ [(8, 8), (256, 8), (264, 32), (296, 41)]"
    unfolding One_nat_def p1 spec
    by (simp add: pass_state_0 store_def off_last_update_time_def frame_stores_def)
  then have "shm_trace (shm (update_shared_memory ?now ?c)) =
      shm_trace (shm ?c) @ [(8, 8), (256, 8), (264, 32), (296, 41), (0, 8)]"
    unfolding fin by (simp add: store_def off_write_counter_def)
  then have a: "drop (length (shm_trace (shm ?c))) (shm_trace (shm (update_shared_memory ?now ?c)))
      = [(8, 8), (256, 8), (264, 32), (296, 41), (0, 8)]"
    by simp
  have b: "1700000002200 - 1700000001700 < (1000 :: int)" by simp
  from a rewrite_instants_half_second b show ?thesis by (intro conjI)
qed

theorem publisher_store_order_and_gap_witness:
  "shm_header_set collector1 \<and> region_ok (shm_bytes (shm collector1)) \<and>
   length (symbols collector1) \<le> MAX_SYMBOLS \<and> list_all counts_ok (symbols collector1) \<and>
   \<not> 1700000001 - last_update_time collector1 < 1 \<and>
   last_update_time (update_shared_memory 1700000001 collector1) = 1700000001 \<and>
   write_counter (shm_bytes (shm (update_shared_memory 1700000001 collector1))) = 1 \<and>
   successively (\<lambda>t t'. time t + 1 \<le> time t' \<and> t < t')
     (rewrite_instants [1700000001200, 1700000001700, 1700000002200] collector1)"
proof -
  note t = publisher_store_order_and_gap [OF collector1_facts(1,2) collector1_n collector1_facts(4),
      where now = 1700000001 and ts = "[1700000001200, 1700000001700, 1700000002200]"]
  from t collector1_gate have "last_update_time (update_shared_memory 1700000001 collector1) = 1700000001"
    and "write_counter (shm_bytes (shm (update_shared_memory 1700000001 collector1)))
          = write_counter (shm_bytes (shm collector1)) + 1"
    by blast+
  moreover from t have "successively (\<lambda>t t'. time t + 1 \<le> time t' \<and> t < t')
      (rewrite_instants [1700000001200, 1700000001700, 1700000002200] collector1)"
    by blast
  ultimately show ?thesis
    using collector1_facts(4)
    by (simp add: collector1_facts(1,2,10) collector1_n collector1_gate list_all_iff)
qed

section \<open>Truncation on overflow\<close>

lemma small_region_facts:
  "rd_size_t (shm_bytes small_region) off_data_offset = 256"
  "rd_size_t (shm_bytes small_region) off_buffer_size = 108"
  "region_ok (shm_bytes small_region)"
  "slot_offset (shm_bytes small_region) 0 = 256"
  "shm_trace small_region = []"
proof -
  have "rd_size_t (shm_bytes small_region) off_data_offset
      = rd_size_t (memcpy (\<lambda>a. 0) off_data_offset (enc_size_t 256)) off_data_offset"
    by (simp add: small_region_def rd_size_t_memcpy_other off_data_offset_def off_buffer_size_def)
  also have "\<dots> = 256" by (rule rd_size_t_memcpy_same) simp
  finally show d: "rd_size_t (shm_bytes small_region) off_data_offset = 256" .
  show b: "rd_size_t (shm_bytes small_region) off_buffer_size = 108"
    unfolding small_region_def by (simp add: rd_size_t_memcpy_same)
  show "region_ok (shm_bytes small_region)"
    by (simp add: region_ok_def d b sizeof_shared_memory_header_t_def sizeof_size_t_def
        MAX_SYMBOLS_def SHM_SIZE_def)
  show "slot_offset (shm_bytes small_region) 0 = 256" by (simp add: slot_offset_def d)
  show "shm_trace small_region = []" by (simp add: small_region_def)
qed

lemma find_symbol_handle_aggTrade:
  "map name (symbols (handle_aggTrade r symbol ok fl now c)) = map name (symbols c)"
proof (cases "find_symbol 0 (symbols c) symbol")
  case None
  then show ?thesis by (simp add: handle_aggTrade_def)
next
  case (Some i)
  from find_symbol_Some [OF Some] have "i < length (symbols c)" by simp
  then show ?thesis
    by (simp add: handle_aggTrade_def Some Let_def map_update list_update_same_conv)
qed

lemma find_symbol_names:
  "map name xs = map name ys \<Longrightarrow> find_symbol i xs s = find_symbol i ys s"
proof (induction xs arbitrary: ys i)
  case Nil
  then show ?case by simp
next
  case (Cons x xs)
  then obtain y ys' where "ys = y # ys'" "name x = name y" "map name xs = map name ys'"
    by (cases ys) auto
  with Cons.IH [of ys' "Suc i"] show ?case by simp
qed

lemma handle_aggTrade_known:
  assumes "find_symbol 0 (symbols c) symbol = Some i"
  shows "symbols (handle_aggTrade r symbol True fl now c) =
    (symbols c)[i := (symbols c ! i)\<lparr>trade_count := trade_count (symbols c ! i) + 1,
       message_count := message_count (symbols c ! i) + 1,
       bytes_processed := bytes_processed (symbols c ! i) + of_nat sizeof_trade_record_t,
       trades := ring_store r (trade_header symbol now) (trades (symbols c ! i)),
       trade_file := fflush fl (fwrite r (trade_file (symbols c ! i)))\<rparr>]"
  by (simp add: handle_aggTrade_def assms Let_def)

lemma handle_kline_known:
  assumes "find_symbol 0 (symbols c) symbol = Some i"
  shows "symbols (handle_kline (Some k) symbol True fl now c) =
    (symbols c)[i := (symbols c ! i)\<lparr>kline_count := kline_count (symbols c ! i) + 1,
       message_count := message_count (symbols c ! i) + 1,
       bytes_processed := bytes_processed (symbols c ! i) + of_nat sizeof_kline_record_t,
       klines := ring_store k (kline_header symbol now) (klines (symbols c ! i)),
       kline_file := fflush fl (fwrite k (kline_file (symbols c ! i)))\<rparr>]"
  by (simp add: handle_kline_def assms Let_def)

lemma find_symbol_collector_1trade: "find_symbol 0 (symbols collector_1trade) BTCUSDT = Some 0"
  unfolding collector_1trade_def
  using find_symbol_names [OF find_symbol_handle_aggTrade] find_symbol_collector1 by simp

lemma collector_2t1k_facts:
  "counts_ok (symbols collector_2t1k ! 0)"
  "count (trades (symbols collector_2t1k ! 0)) = 2"
  "count (klines (symbols collector_2t1k ! 0)) = 1"
proof -
  let ?c2 = "handle_aggTrade (example_trade 0x40C388C000000000 2) BTCUSDT True True 1700000001
          collector_1trade"
  note f1 = find_symbol_collector_1trade
  have f2: "find_symbol 0 (symbols ?c2) BTCUSDT = Some 0"
    using find_symbol_names [OF find_symbol_handle_aggTrade] f1 by simp
  have l: "length (symbols collector_1trade) = 1" by (rule collector_1trade_facts(4))
  note s2 = handle_aggTrade_known [OF f1, where r = "example_trade 0x40C388C000000000 2"
      and fl = True and now = 1700000001]
  note s3 = handle_kline_known [OF f2, where k = example_kline and fl = True and now = 1700000001,
      folded collector_2t1k_def]
  from l have l2: "length (symbols ?c2) = 1" by (simp add: handle_aggTrade_fields)
  have x3: "symbols collector_2t1k ! 0 =
      (symbols ?c2 ! 0)\<lparr>kline_count := kline_count (symbols ?c2 ! 0) + 1,
       message_count := message_count (symbols ?c2 ! 0) + 1,
       bytes_processed := bytes_processed (symbols ?c2 ! 0) + of_nat sizeof_kline_record_t,
       klines := ring_store example_kline (kline_header BTCUSDT 1700000001) (klines (symbols ?c2 ! 0)),
       kline_file := fflush True (fwrite example_kline (kline_file (symbols ?c2 ! 0)))\<rparr>"
    unfolding s3 using l2 by simp
  have x2: "symbols ?c2 ! 0 =
      (symbols collector_1trade ! 0)\<lparr>trade_count := trade_count (symbols collector_1trade ! 0) + 1,
       message_count := message_count (symbols collector_1trade ! 0) + 1,
       bytes_processed := bytes_processed (symbols collector_1trade ! 0) + of_nat sizeof_trade_record_t,
       trades := ring_store (example_trade 0x40C388C000000000 2) (trade_header BTCUSDT 1700000001)
          (trades (symbols collector_1trade ! 0)),
       trade_file := fflush True (fwrite (example_trade 0x40C388C000000000 2) (trade_file (symbols collector_1trade ! 0)))\<rparr>"
    unfolding s2 using l by simp
  show t: "count (trades (symbols collector_2t1k ! 0)) = 2"
    unfolding x3 by (simp add: x2 ring_store_def Let_def collector_1trade_facts(6) MAX_RECORDS_PER_SYMBOL_def)
  show k: "count (klines (symbols collector_2t1k ! 0)) = 1"
    unfolding x3 by (simp add: x2 ring_store_def Let_def collector_1trade_facts(7) MAX_RECORDS_PER_SYMBOL_def)
  show "counts_ok (symbols collector_2t1k ! 0)"
    by (simp add: counts_ok_def t k MAX_RECORDS_PER_SYMBOL_def)
qed

lemma small_region_truncation:
  "total_data_size (symbols collector_2t1k ! 0) 108 = 100"
  "trades_to_write (symbols collector_2t1k ! 0) 100 = 1"
  "klines_to_write (symbols collector_2t1k ! 0) 100 = 0"
proof -
  note f = collector_2t1k_facts
  have "sizeof_size_t \<le> (108::nat)" "(108::nat) < 2 ^ 64" by (simp_all add: sizeof_size_t_def)
  from total_data_size_eq [OF f(1) this]
  show "total_data_size (symbols collector_2t1k ! 0) 108 = 100" by (simp add: f(2,3))
  show t: "trades_to_write (symbols collector_2t1k ! 0) 100 = 1"
    by (simp add: trades_to_write_def f(2) size_mul_def)
  have "(100::nat) < 2 ^ 64" by simp
  from klines_to_write_facts(5) [OF f(1) this]
  show "klines_to_write (symbols collector_2t1k ! 0) 100 = 0" by (simp add: t f(2))
qed

text \<open>
  The branch of lines 511--514 on a header that announces slots of 108 bytes, for a symbol that
  holds two trades and one kline (243 bytes of frames): the size field is set to
  \<open>108 - 8 = 100\<close>, and what is copied after it is the one trade frame that fits, 73 bytes.
  \<open>init_shared_memory\<close> is the only function that stores \<open>buffer_size\<close>, and the value it
  stores is 6710860: the program does not take this branch.
\<close>

lemma truncation_branch_size_field:
  "rd_size_t (shm_bytes (update_symbol (symbols collector_2t1k ! 0) 0 small_region)) 256 = 100 \<and>
   shm_trace (update_symbol (symbols collector_2t1k ! 0) 0 small_region)
     = [(256, 8), (264, 32), (296, 41)]"
proof -
  have i: "0 < MAX_SYMBOLS" by (simp add: MAX_SYMBOLS_def)
  note f = small_region_facts
  note eff = update_symbol_effect [OF f(3) i collector_2t1k_facts(1), unfolded f(2,4),
      unfolded small_region_truncation(1)]
  note spec = update_symbol_spec [OF f(3) i collector_2t1k_facts(1), unfolded f(2,4,5),
      unfolded small_region_truncation(1), unfolded small_region_truncation(2,3)]
  have "shm_trace (update_symbol (symbols collector_2t1k ! 0) 0 small_region)
     = [(256, 8), (264, 32), (296, 41)]"
    unfolding spec by (simp add: frame_stores_def)
  with eff(1) show ?thesis by simp
qed

text \<open>
  C3. When the frames of a symbol (73 bytes for a trade, 97 for a kline) do not fit into
  \<open>buffer_size - 8\<close>, the size announced is \<open>buffer_size - 8\<close>; the stores after the size
  field are whole frames (a 32-byte header and a record each), the trade frames first and the
  kline frames behind them; the bytes they fill are the frames of the oldest trades and klines
  of the walk; together they take at most \<open>buffer_size - 8\<close> bytes; and a kline frame is
  copied only when no trade frame has been left out.
\<close>

theorem overflow_keeps_whole_frames_trades_first:
  assumes ok: "region_ok (shm_bytes s)" and i: "i < MAX_SYMBOLS" and c: "counts_ok symb"
    and over: "rd_size_t (shm_bytes s) off_buffer_size - 8
                 < count (trades symb) * 73 + count (klines symb) * 97"
  defines "so \<equiv> slot_offset (shm_bytes s) i"
    and "bs \<equiv> rd_size_t (shm_bytes s) off_buffer_size"
  defines "ttw \<equiv> trades_to_write symb (total_data_size symb bs)"
    and "ktw \<equiv> klines_to_write symb (total_data_size symb bs)"
  shows "total_data_size symb bs = bs - 8 \<and>
         shm_trace (update_symbol symb i s) =
           shm_trace s @ (so, 8) # frame_stores 41 (so + 8) ttw @
             frame_stores 65 (so + 8 + ttw * 73) ktw \<and>
         load (shm_bytes (update_symbol symb i s)) (so + 8) (ttw * 73 + ktw * 97) =
           concat (map (frame_bytes encode_trade) (chrono (trades symb) ttw)) @
           concat (map (frame_bytes encode_kline) (chrono (klines symb) ktw)) \<and>
         ttw * 73 + ktw * 97 \<le> bs - 8 \<and>
         ttw \<le> count (trades symb) \<and> ktw \<le> count (klines symb) \<and>
         (ttw < count (trades symb) \<longrightarrow> ktw = 0)"
proof -
  note slot = region_ok_slot [OF ok i]
  have bs64: "bs < 2 ^ 64" unfolding bs_def by (rule rd_size_t_bound)
  from slot(4) have bs8: "sizeof_size_t \<le> bs" by (simp add: sizeof_size_t_def bs_def)
  from over have "bs - 8 < count (trades symb) * 73 + count (klines symb) * 97"
    by (simp only: bs_def)
  then have tot: "total_data_size symb bs = bs - 8"
    unfolding total_data_size_eq [OF c bs8 bs64] by simp
  from bs64 have tot64: "total_data_size symb bs < 2 ^ 64" by (simp add: tot)
  note tf = trades_to_write_facts [OF c, of "total_data_size symb bs"]
  note kf = klines_to_write_facts [OF c tot64]
  note eff = update_symbol_effect [OF ok i c, folded so_def bs_def, folded ttw_def ktw_def]
  note spec = update_symbol_spec [OF ok i c, folded so_def bs_def, folded ttw_def ktw_def]
  have tr: "shm_trace (update_symbol symb i s) =
           shm_trace s @ (so, 8) # frame_stores 41 (so + 8) ttw @
             frame_stores 65 (so + 8 + ttw * 73) ktw"
    by (simp add: spec)
  have ld: "load (shm_bytes (update_symbol symb i s)) (so + 8) (ttw * 73 + ktw * 97) =
           concat (map (frame_bytes encode_trade) (chrono (trades symb) ttw)) @
           concat (map (frame_bytes encode_kline) (chrono (klines symb) ktw))"
    using eff(2) by (simp add: payload_def ttw_def ktw_def)
  from kf(3) have le: "ttw * 73 + ktw * 97 \<le> bs - 8"
    by (simp add: ttw_def ktw_def tot)
  from tf(1) have t: "ttw \<le> count (trades symb)" by (simp add: ttw_def)
  from kf(1) have k: "ktw \<le> count (klines symb)" by (simp add: ktw_def)
  from kf(5) have z: "ttw < count (trades symb) \<longrightarrow> ktw = 0" by (simp add: ttw_def ktw_def)
  from tot tr ld le t k z show ?thesis by blast
qed

theorem overflow_keeps_whole_frames_trades_first_witness:
  "region_ok (shm_bytes small_region) \<and> 0 < MAX_SYMBOLS \<and>
   counts_ok (symbols collector_2t1k ! 0) \<and>
   rd_size_t (shm_bytes small_region) off_buffer_size - 8
     < count (trades (symbols collector_2t1k ! 0)) * 73 +
       count (klines (symbols collector_2t1k ! 0)) * 97 \<and>
   total_data_size (symbols collector_2t1k ! 0) 108 = 100 \<and>
   trades_to_write (symbols collector_2t1k ! 0) 100 * 73 +
     klines_to_write (symbols collector_2t1k ! 0) 100 * 97 \<le> 100 \<and>
   klines_to_write (symbols collector_2t1k ! 0) 100 = 0"
proof -
  have i: "0 < MAX_SYMBOLS" by (simp add: MAX_SYMBOLS_def)
  have over: "rd_size_t (shm_bytes small_region) off_buffer_size - 8
     < count (trades (symbols collector_2t1k ! 0)) * 73 +
       count (klines (symbols collector_2t1k ! 0)) * 97"
    by (simp add: small_region_facts(2) collector_2t1k_facts(2,3))
  note t = overflow_keeps_whole_frames_trades_first [OF small_region_facts(3) i
      collector_2t1k_facts(1) over, unfolded small_region_facts(2)]
  from t have a: "total_data_size (symbols collector_2t1k ! 0) 108 = 100" by simp
  from t have b: "trades_to_write (symbols collector_2t1k ! 0) (total_data_size (symbols collector_2t1k ! 0) 108) * 73 +
     klines_to_write (symbols collector_2t1k ! 0) (total_data_size (symbols collector_2t1k ! 0) 108) * 97 \<le> 108 - 8"
    by blast
  from t have c: "trades_to_write (symbols collector_2t1k ! 0) (total_data_size (symbols collector_2t1k ! 0) 108)
      < count (trades (symbols collector_2t1k ! 0)) \<longrightarrow>
      klines_to_write (symbols collector_2t1k ! 0) (total_data_size (symbols collector_2t1k ! 0) 108) = 0"
    by blast
  from c have c': "klines_to_write (symbols collector_2t1k ! 0) 100 = 0"
    unfolding a by (simp add: small_region_truncation(2) collector_2t1k_facts(2))
  from b have b': "trades_to_write (symbols collector_2t1k ! 0) 100 * 73 +
     klines_to_write (symbols collector_2t1k ! 0) 100 * 97 \<le> 100"
    unfolding a by simp
  from a b' c' over show ?thesis
    by (simp add: small_region_facts(3) i collector_2t1k_facts(1))
qed

lemma empty_symbol_size_field:
  assumes ok: "region_ok (shm_bytes s)" and i: "i < MAX_SYMBOLS"
    and e: "count (trades symb) = 0" "count (klines symb) = 0"
  shows "rd_size_t (shm_bytes (update_symbol symb i s)) (slot_offset (shm_bytes s) i) = 0"
proof -
  from e have c: "counts_ok symb" by (simp add: counts_ok_def)
  note slot = region_ok_slot [OF ok i]
  have bs64: "rd_size_t (shm_bytes s) off_buffer_size < 2 ^ 64" by (rule rd_size_t_bound)
  from slot(4) have bs8: "sizeof_size_t \<le> rd_size_t (shm_bytes s) off_buffer_size"
    by (simp add: sizeof_size_t_def)
  have "total_data_size symb (rd_size_t (shm_bytes s) off_buffer_size) = 0"
    by (simp add: total_data_size_eq [OF c bs8 bs64] e)
  with update_symbol_effect(1) [OF ok i c] show ?thesis by simp
qed

section \<open>The reader on frames the publisher wrote\<close>

lemma tolower_eq_0 [simp]: "tolower b = 0 \<longleftrightarrow> b = 0"
proof -
  have "b + 32 \<noteq> 0" if "65 \<le> b" "b \<le> 90"
  proof
    assume "b + 32 = 0"
    then have "b = - 32" by (simp add: eq_neg_iff_add_eq_0)
    then have "b = 224" by simp
    with that show False by simp
  qed
  then show ?thesis by (auto simp: tolower_def)
qed

lemma strcasecmp_mem_le: "snd (strcasecmp_mem m a s) \<le> Suc (length s)"
  by (induction s arbitrary: a) auto

text \<open>
  A NUL-terminated string in memory that equals the requested one up to case compares equal,
  and the comparison reads it up to its NUL.
\<close>

lemma strcasecmp_mem_match:
  assumes "\<forall>k < length bs. m (a + k) = bs ! k" "m (a + length bs) = 0"
    and "0 \<notin> set bs" "map tolower bs = map tolower s"
  shows "strcasecmp_mem m a s = (True, Suc (length s))"
  using assms
proof (induction s arbitrary: a bs)
  case Nil
  then show ?case by simp
next
  case (Cons c cs)
  from Cons.prems(4) obtain b bs' where bs: "bs = b # bs'" and b: "tolower b = tolower c"
    and rest: "map tolower bs' = map tolower cs"
    by (cases bs) auto
  from Cons.prems(1) bs have m0: "m a = b" by auto
  from Cons.prems(3) bs have b0: "b \<noteq> 0" and z: "0 \<notin> set bs'" by auto
  from b b0 have c0: "c \<noteq> 0" by (metis tolower_eq_0)
  have "\<forall>k < length bs'. m (Suc a + k) = bs' ! k"
    using Cons.prems(1) bs by (auto simp: nth_Cons split: nat.splits)
  moreover from Cons.prems(2) bs have "m (Suc a + length bs') = 0" by simp
  ultimately have "strcasecmp_mem m (Suc a) cs = (True, Suc (length cs))"
    using z rest by (intro Cons.IH)
  with m0 b c0 show ?case by simp
qed

lemma load_sub:
  assumes "load m a n = bs" "k + j \<le> n"
  shows "load m (a + k) j = take j (drop k bs)"
proof (rule nth_equalityI)
  from assms have "length bs = n" by auto
  with assms(2) show "length (load m (a + k) j) = length (take j (drop k bs))" by simp
  fix i assume "i < length (load m (a + k) j)"
  then have i: "i < j" by simp
  with assms(2) have "k + i < n" by simp
  from nth_load [OF this, of m a] assms(1) have "bs ! (k + i) = m (a + k + i)"
    by (simp add: add.assoc)
  with i assms \<open>length bs = n\<close> show "load m (a + k) j ! i = take j (drop k bs) ! i"
    by (simp add: nth_load)
qed

lemma symbol_field_cstring:
  assumes "length nm < MAX_SYMBOL_LENGTH"
  shows "symbol_field nm = nm @ replicate (16 - length nm) 0"
  using assms by (simp add: symbol_field_def MAX_SYMBOL_LENGTH_def)

lemma header_in_memory:
  assumes mem: "load m a 32 = encode_header h" and sym: "mh_symbol h = symbol_field nm"
    and nm: "names_match nm symbol"
  shows "dec32 (load m a 4) = mh_type h" "dec32 (load m (a + 4) 4) = mh_length h"
    "strcasecmp_mem m (a + 16) symbol = (True, Suc (length symbol))"
proof -
  from load_sub [OF mem, of 0 4] show "dec32 (load m a 4) = mh_type h"
    by (simp add: encode_header_def)
  from load_sub [OF mem, of 4 4] show "dec32 (load m (a + 4) 4) = mh_length h"
    by (simp add: encode_header_def)
  from nm have l: "length nm < MAX_SYMBOL_LENGTH" and z: "0 \<notin> set nm"
    and t: "map tolower nm = map tolower symbol"
    by (simp_all add: names_match_def)
  from l have l16: "length nm < 16" by (simp add: MAX_SYMBOL_LENGTH_def)
  from load_sub [OF mem, of 16 16] l16
  have s: "load m (a + 16) 16 = nm @ replicate (16 - length nm) 0"
    by (simp add: encode_header_def sym symbol_field_cstring [OF l] MAX_SYMBOL_LENGTH_def)
  have at: "m (a + 16 + k) = (nm @ replicate (16 - length nm) 0) ! k" if "k < 16" for k
    using nth_load [OF that, of m "a + 16"] s by simp
  have 1: "\<forall>k < length nm. m (a + 16 + k) = nm ! k"
    using at l16 by (simp add: nth_append)
  have 2: "m (a + 16 + length nm) = 0"
    using at [OF l16] l16 by (simp add: nth_append)
  from strcasecmp_mem_match [OF 1 2 z t]
  show "strcasecmp_mem m (a + 16) symbol = (True, Suc (length symbol))" .
qed

lemma names_match_length: "names_match nm symbol \<Longrightarrow> length symbol < 16"
  unfolding names_match_def MAX_SYMBOL_LENGTH_def
  by (metis length_map)

lemma walk_trade_frame:
  assumes rc: "record_count < max_records"
    and fit: "offset + 73 \<le> data_size" "base + data_size \<le> SHM_SIZE"
    and mem: "load m (base + offset) 73 = frame_bytes encode_trade (h, r)"
    and h: "header_for DATA_TYPE_TRADE 41 nm h" and nm: "names_match nm symbol"
  shows "walk m symbol base data_size max_records offset record_count =
           trade_items symbol base offset r @
           walk m symbol base data_size max_records (offset + 73) (record_count + 1)"
proof -
  from fit have small: "offset + 73 \<le> 67108864" by (simp add: SHM_SIZE_def)
  then have "offset + 32 < 2 ^ 64" "offset + 32 + 41 < 2 ^ 64"
    by (auto intro: small_lt_pow64)
  then have a1: "size_add offset sizeof_message_header_t = offset + 32"
    and a2: "size_add (offset + 32) 41 = offset + 73"
    by (simp_all add: size_add_small sizeof_message_header_t_def)
  from load_sub [OF mem, of 0 32] have hm: "load m (base + offset) 32 = encode_header h"
    by (simp add: frame_bytes_def)
  from load_sub [OF mem, of 32 41] have rm: "load m (base + offset + 32) 41 = encode_trade r"
    by (simp add: frame_bytes_def)
  from h have ty: "mh_type h = DATA_TYPE_TRADE" and len: "unat (mh_length h) = 41"
    and sym: "mh_symbol h = symbol_field nm"
    by (simp_all add: header_for_def)
  note hd = header_in_memory [OF hm sym nm]
  note l = names_match_length [OF nm]
  from fit have c1: "offset < data_size" and c2: "\<not> data_size < offset + 32"
    and c3: "\<not> SHM_SIZE < base + offset + 16 + Suc (length symbol)"
    and c4: "\<not> data_size < offset + 73" and c5: "\<not> SHM_SIZE < base + (offset + 32) + 41"
    using l by simp_all
  from rm have rm': "load m (base + (offset + 32)) 41 = encode_trade r"
    by (simp only: add.assoc)
  from fit l have c6: "\<not> SHM_SIZE < base + (offset + 73)"
    and c7: "\<not> SHM_SIZE < 17 + (base + (offset + length symbol))"
    by simp_all
  show ?thesis
    apply (subst walk.simps)
    apply (simp only: Let_def a1 hd ty len fst_conv snd_conv)
    apply (simp add: rc c1 c2 c4 c6 c7 a2 sizeof_trade_record_t_def rm' trade_items_def
        DATA_TYPE_TRADE_def add.assoc)
    done
qed

lemma walk_kline_frame:
  assumes rc: "record_count < max_records"
    and fit: "offset + 97 \<le> data_size" "base + data_size \<le> SHM_SIZE"
    and mem: "load m (base + offset) 97 = frame_bytes encode_kline (h, r)"
    and h: "header_for DATA_TYPE_KLINE 65 nm h" and nm: "names_match nm symbol"
  shows "walk m symbol base data_size max_records offset record_count =
           kline_items symbol base offset r @
           walk m symbol base data_size max_records (offset + 97) (record_count + 1)"
proof -
  from fit have small: "offset + 97 \<le> 67108864" by (simp add: SHM_SIZE_def)
  then have "offset + 32 < 2 ^ 64" "offset + 32 + 65 < 2 ^ 64"
    by (auto intro: small_lt_pow64)
  then have a1: "size_add offset sizeof_message_header_t = offset + 32"
    and a2: "size_add (offset + 32) 65 = offset + 97"
    by (simp_all add: size_add_small sizeof_message_header_t_def)
  from load_sub [OF mem, of 0 32] have hm: "load m (base + offset) 32 = encode_header h"
    by (simp add: frame_bytes_def)
  from load_sub [OF mem, of 32 65] have rm: "load m (base + offset + 32) 65 = encode_kline r"
    by (simp add: frame_bytes_def)
  from h have ty: "mh_type h = DATA_TYPE_KLINE" and len: "unat (mh_length h) = 65"
    and sym: "mh_symbol h = symbol_field nm"
    by (simp_all add: header_for_def)
  note hd = header_in_memory [OF hm sym nm]
  note l = names_match_length [OF nm]
  from fit have c1: "offset < data_size" and c2: "\<not> data_size < offset + 32"
    and c3: "\<not> SHM_SIZE < base + offset + 16 + Suc (length symbol)"
    and c4: "\<not> data_size < offset + 97" and c5: "\<not> SHM_SIZE < base + (offset + 32) + 65"
    using l by simp_all
  from rm have rm': "load m (base + (offset + 32)) 65 = encode_kline r"
    by (simp only: add.assoc)
  from fit l have c6: "\<not> SHM_SIZE < base + (offset + 97)"
    and c7: "\<not> SHM_SIZE < 17 + (base + (offset + length symbol))"
    by simp_all
  show ?thesis
    apply (subst walk.simps)
    apply (simp only: Let_def a1 hd ty len fst_conv snd_conv)
    apply (simp add: rc c1 c2 c4 c6 c7 a2 sizeof_kline_record_t_def rm' kline_items_def
        DATA_TYPE_KLINE_def DATA_TYPE_TRADE_def add.assoc)
    done
qed


lemma concat_frames_Cons:
  assumes "\<And>x. length (enc x) = sz"
    and "load m a (length (p # fs) * (32 + sz)) = concat (map (frame_bytes enc) (p # fs))"
  shows "load m a (32 + sz) = frame_bytes enc p"
    and "load m (a + (32 + sz)) (length fs * (32 + sz)) = concat (map (frame_bytes enc) fs)"
proof -
  have l: "length (frame_bytes enc p) = 32 + sz" by (simp add: frame_bytes_def assms(1))
  from load_sub [OF assms(2), of 0 "32 + sz"] l show "load m a (32 + sz) = frame_bytes enc p"
    by simp
  from load_sub [OF assms(2), of "32 + sz" "length fs * (32 + sz)"] l
  show "load m (a + (32 + sz)) (length fs * (32 + sz)) = concat (map (frame_bytes enc) fs)"
    using length_concat_frames [of enc sz fs, OF assms(1)] by simp
qed

lemma walk_trade_frames:
  assumes nm: "names_match nm symbol" and bound: "base + data_size \<le> SHM_SIZE"
  shows "\<forall>p \<in> set fs. header_for DATA_TYPE_TRADE 41 nm (fst p) \<Longrightarrow>
    load m (base + offset) (length fs * 73) = concat (map (frame_bytes encode_trade) fs) \<Longrightarrow>
    offset + length fs * 73 \<le> data_size \<Longrightarrow>
    record_count + int (length fs) \<le> max_records \<Longrightarrow>
    walk m symbol base data_size max_records offset record_count =
      frames_items (trade_items symbol base) 73 offset (map snd fs) @
      walk m symbol base data_size max_records (offset + length fs * 73)
        (record_count + int (length fs))"
proof (induction fs arbitrary: offset record_count)
  case Nil
  show ?case by simp
next
  case (Cons p fs)
  obtain h r where p: "p = (h, r)" by (cases p)
  from Cons.prems(1) p have h: "header_for DATA_TYPE_TRADE 41 nm h"
    and hs: "\<forall>q \<in> set fs. header_for DATA_TYPE_TRADE 41 nm (fst q)"
    by simp_all
  have enc: "\<And>x. length (encode_trade x) = 41" by simp
  from Cons.prems(2) have "load m (base + offset) (length (p # fs) * (32 + 41))
      = concat (map (frame_bytes encode_trade) (p # fs))"
    by simp
  note parts = concat_frames_Cons [OF enc this]
  from parts(1) p have m1: "load m (base + offset) 73 = frame_bytes encode_trade (h, r)" by simp
  from parts(2) have m2: "load m (base + (offset + 73)) (length fs * 73)
      = concat (map (frame_bytes encode_trade) fs)"
    by (simp add: add.assoc)
  from Cons.prems(3) have f1: "offset + 73 \<le> data_size"
    and f2: "(offset + 73) + length fs * 73 \<le> data_size"
    by simp_all
  from Cons.prems(4) have r1: "record_count < max_records"
    and r2: "(record_count + 1) + int (length fs) \<le> max_records"
    by simp_all
  note step = walk_trade_frame [OF r1 f1 bound m1 h nm]
  note ih = Cons.IH [OF hs m2 f2 r2]
  have e1: "offset + 73 + length fs * 73 = offset + length (p # fs) * 73" by simp
  have e2: "record_count + 1 + int (length fs) = record_count + int (length (p # fs))" by simp
  show ?case
    unfolding step ih e1 e2 by (simp add: p)
qed

lemma walk_kline_frames:
  assumes nm: "names_match nm symbol" and bound: "base + data_size \<le> SHM_SIZE"
  shows "\<forall>p \<in> set fs. header_for DATA_TYPE_KLINE 65 nm (fst p) \<Longrightarrow>
    load m (base + offset) (length fs * 97) = concat (map (frame_bytes encode_kline) fs) \<Longrightarrow>
    offset + length fs * 97 \<le> data_size \<Longrightarrow>
    record_count + int (length fs) \<le> max_records \<Longrightarrow>
    walk m symbol base data_size max_records offset record_count =
      frames_items (kline_items symbol base) 97 offset (map snd fs) @
      walk m symbol base data_size max_records (offset + length fs * 97)
        (record_count + int (length fs))"
proof (induction fs arbitrary: offset record_count)
  case Nil
  show ?case by simp
next
  case (Cons p fs)
  obtain h r where p: "p = (h, r)" by (cases p)
  from Cons.prems(1) p have h: "header_for DATA_TYPE_KLINE 65 nm h"
    and hs: "\<forall>q \<in> set fs. header_for DATA_TYPE_KLINE 65 nm (fst q)"
    by simp_all
  have enc: "\<And>x. length (encode_kline x) = 65" by simp
  from Cons.prems(2) have "load m (base + offset) (length (p # fs) * (32 + 65))
      = concat (map (frame_bytes encode_kline) (p # fs))"
    by simp
  note parts = concat_frames_Cons [OF enc this]
  from parts(1) p have m1: "load m (base + offset) 97 = frame_bytes encode_kline (h, r)" by simp
  from parts(2) have m2: "load m (base + (offset + 97)) (length fs * 97)
      = concat (map (frame_bytes encode_kline) fs)"
    by (simp add: add.assoc)
  from Cons.prems(3) have f1: "offset + 97 \<le> data_size"
    and f2: "(offset + 97) + length fs * 97 \<le> data_size"
    by simp_all
  from Cons.prems(4) have r1: "record_count < max_records"
    and r2: "(record_count + 1) + int (length fs) \<le> max_records"
    by simp_all
  note step = walk_kline_frame [OF r1 f1 bound m1 h nm]
  note ih = Cons.IH [OF hs m2 f2 r2]
  have e1: "offset + 97 + length fs * 97 = offset + length (p # fs) * 97" by simp
  have e2: "record_count + 1 + int (length fs) = record_count + int (length (p # fs))" by simp
  show ?case
    unfolding step ih e1 e2 by (simp add: p)
qed

lemma display_slot_frames:
  assumes lk: "lookup_symbol m symbol (rd_size_t m off_symbol_count) 0 = Found i"
    and ok: "region_ok m" and i: "i < MAX_SYMBOLS"
    and size: "rd_size_t m (slot_offset m i) = tot" and pos: "0 < tot"
    and cap: "tot \<le> rd_size_t m off_buffer_size - 8"
    and content: "load m (slot_offset m i + 8) (length tf * 73 + length kf * 97) =
        concat (map (frame_bytes encode_trade) tf) @ concat (map (frame_bytes encode_kline) kf)"
    and th: "\<forall>p \<in> set tf. header_for DATA_TYPE_TRADE 41 nm (fst p)"
    and kh: "\<forall>p \<in> set kf. header_for DATA_TYPE_KLINE 65 nm (fst p)"
    and nm: "names_match nm symbol"
    and n: "length tf * 73 + length kf * 97 \<le> tot"
    and mx: "int (length tf + length kf) \<le> max_records"
  shows "display_symbol_data m symbol max_records =
    Rd (slot_offset m i) 8 # Data_size tot # Data_for #
    frames_items (trade_items symbol (slot_offset m i + 8)) 73 0 (map snd tf) @
    frames_items (kline_items symbol (slot_offset m i + 8)) 97 (length tf * 73) (map snd kf) @
    walk m symbol (slot_offset m i + 8) tot max_records (length tf * 73 + length kf * 97)
      (int (length tf + length kf))"
proof -
  let ?so = "slot_offset m i" and ?bs = "rd_size_t m off_buffer_size"
  note slot = region_ok_slot [OF ok i]
  have bs64: "?bs < 2 ^ 64" by (rule rd_size_t_bound)
  from size_sub_small [OF slot(4) bs64] have sub: "size_sub ?bs sizeof_size_t = ?bs - 8"
    by (simp add: sizeof_size_t_def)
  from slot(2) slot(4) have so_le: "?so + 8 \<le> 67108864" by (simp add: SHM_SIZE_def)
  then have "?so + 8 < 2 ^ 64" by (auto intro: small_lt_pow64)
  then have a8: "size_add ?so sizeof_size_t = ?so + 8"
    by (simp add: size_add_small sizeof_size_t_def)
  from slot(2) slot(4) have c1: "\<not> SHM_SIZE \<le> ?so" and c2: "\<not> SHM_SIZE < ?so + 8" by simp_all
  from pos have c3: "tot \<noteq> 0" by simp
  from cap have c4: "\<not> ?bs - 8 < tot" by simp
  have head: "display_symbol_data m symbol max_records =
      Rd ?so 8 # Data_size tot # Data_for # walk m symbol (?so + 8) tot max_records 0 0"
    unfolding display_symbol_data_def lk lookup.case Let_def slot(1) a8 sub size
    using c1 c2 c3 c4 by (simp add: sizeof_size_t_def)
  from cap slot(2) slot(4) have bound: "?so + 8 + tot \<le> SHM_SIZE" by simp
  have lt: "length (concat (map (frame_bytes encode_trade) tf)) = length tf * 73"
    using length_concat_frames [of encode_trade 41 tf] by simp
  from load_sub [OF content, of 0 "length tf * 73"] lt
  have mt: "load m (?so + 8 + 0) (length tf * 73) = concat (map (frame_bytes encode_trade) tf)"
    by simp
  have lk': "length (concat (map (frame_bytes encode_kline) kf)) = length kf * 97"
    using length_concat_frames [of encode_kline 65 kf] by simp
  from load_sub [OF content, of "length tf * 73" "length kf * 97"] lt lk'
  have mk: "load m (?so + 8 + length tf * 73) (length kf * 97)
      = concat (map (frame_bytes encode_kline) kf)"
    by simp
  from n have n1: "0 + length tf * 73 \<le> tot" and n2: "length tf * 73 + length kf * 97 \<le> tot"
    by simp_all
  from mx have r1: "0 + int (length tf) \<le> max_records"
    and r2: "int (length tf) + int (length kf) \<le> max_records"
    by simp_all
  note w1 = walk_trade_frames [OF nm bound th mt n1 r1]
  note w2 = walk_kline_frames [OF nm bound kh mk n2 r2]
  show ?thesis
    unfolding head w1 using w2 by simp
qed

section \<open>Well-formed buffers\<close>

lemma ring_wf_store:
  assumes "ring_wf P r" "P h"
  shows "ring_wf P (ring_store x h r)"
proof -
  from assms(1) have lr: "length (records r) = 100" and lh: "length (headers r) = 100"
    and c: "count r \<le> 100" and n: "next_index r < 100"
    and nc: "count r < 100 \<Longrightarrow> next_index r = count r"
    and p: "\<And>k. k < count r \<Longrightarrow> P (headers r ! k)"
    by (simp_all add: ring_wf_def MAX_RECORDS_PER_SYMBOL_def)
  let ?r = "ring_store x h r"
  have hs: "headers ?r = (headers r)[next_index r := h]"
    and cnt: "count ?r = (if count r < 100 then count r + 1 else count r)"
    and nxt: "next_index ?r = (next_index r + 1) mod 100"
    and len: "length (records ?r) = 100" "length (headers ?r) = 100"
    by (simp_all add: ring_store_def Let_def MAX_RECORDS_PER_SYMBOL_def lr lh)
  have a: "count ?r \<le> 100" using c by (simp add: cnt)
  have b: "next_index ?r < 100" by (simp add: nxt)
  have d: "next_index ?r = count ?r" if "count ?r < 100"
  proof -
    from that have "count r + 1 < 100" by (simp add: cnt split: if_splits)
    with nc show ?thesis by (simp add: nxt cnt)
  qed
  have e: "P (headers ?r ! k)" if k: "k < count ?r" for k
  proof (cases "k = next_index r")
    case True
    with n lh assms(2) show ?thesis by (simp add: hs)
  next
    case False
    have "k < count r"
    proof (cases "count r < 100")
      case True
      with k have "k < count r + 1" by (simp add: cnt)
      with False nc [OF True] show ?thesis by simp
    next
      case False
      with k show ?thesis by (simp add: cnt)
    qed
    from p [OF this] False show ?thesis by (simp add: hs)
  qed
  from len a b d e show ?thesis
    by (simp add: ring_wf_def MAX_RECORDS_PER_SYMBOL_def)
qed

lemma ring_wf_zero: "ring_wf P (zero_ring z)"
  by (simp add: ring_wf_def zero_ring_def MAX_RECORDS_PER_SYMBOL_def)

lemma chrono_headers:
  assumes "ring_wf P r" "n \<le> count r"
  shows "\<forall>p \<in> set (chrono r n). P (fst p)"
proof -
  from assms(1) have c: "count r \<le> 100"
    and p: "\<And>k. k < count r \<Longrightarrow> P (headers r ! k)"
    by (simp_all add: ring_wf_def MAX_RECORDS_PER_SYMBOL_def)
  have "P (headers r ! walk_idx r j)" if "j < n" for j
  proof (cases "count r < 100")
    case True
    with that assms(2) have "walk_idx r j = j"
      by (simp add: walk_idx_def start_idx_def MAX_RECORDS_PER_SYMBOL_def)
    with that assms(2) p show ?thesis by simp
  next
    case False
    with c have "count r = 100" by simp
    moreover have "walk_idx r j < 100" by (simp add: walk_idx_def MAX_RECORDS_PER_SYMBOL_def)
    ultimately show ?thesis using p by simp
  qed
  then show ?thesis by (auto simp: chrono_def)
qed

lemma symbol_wf_counts: "symbol_wf x \<Longrightarrow> counts_ok x"
  by (simp add: symbol_wf_def ring_wf_def counts_ok_def)

lemma symbol_wf_init: "symbol_wf (init_symbol_data x)"
  by (simp add: symbol_wf_def init_symbol_data_def ring_wf_zero)

lemma trade_header_for: "header_for DATA_TYPE_TRADE 41 symbol (trade_header symbol now)"
  by (simp add: header_for_def trade_header_def sizeof_trade_record_t_def)

lemma kline_header_for: "header_for DATA_TYPE_KLINE 65 symbol (kline_header symbol now)"
  by (simp add: header_for_def kline_header_def sizeof_kline_record_t_def)

lemma symbol_wf_handle_aggTrade:
  assumes "\<forall>x \<in> set (symbols c). symbol_wf x"
  shows "\<forall>x \<in> set (symbols (handle_aggTrade r symbol ok fl now c)). symbol_wf x"
proof (cases "find_symbol 0 (symbols c) symbol")
  case None
  with assms show ?thesis by (simp add: handle_aggTrade_def)
next
  case (Some i)
  from find_symbol_Some [OF Some] have i: "i < length (symbols c)"
    and nm: "name (symbols c ! i) = symbol"
    by simp_all
  with assms have wi: "symbol_wf (symbols c ! i)" by simp
  show ?thesis
  proof (cases ok)
    case False
    let ?x = "(symbols c ! i)\<lparr>trade_file := fflush fl (trade_file (symbols c ! i))\<rparr>"
    from wi have "symbol_wf ?x" by (simp add: symbol_wf_def)
    moreover have "symbols (handle_aggTrade r symbol ok fl now c) = (symbols c)[i := ?x]"
      using False Some by (simp add: handle_aggTrade_def Let_def)
    ultimately show ?thesis using assms by (auto dest!: set_update_subset_insert [THEN subsetD])
  next
    case True
    let ?x = "(symbols c ! i)\<lparr>trade_count := trade_count (symbols c ! i) + 1,
        message_count := message_count (symbols c ! i) + 1,
        bytes_processed := bytes_processed (symbols c ! i) + of_nat sizeof_trade_record_t,
        trades := ring_store r (trade_header symbol now) (trades (symbols c ! i)),
        trade_file := fflush fl (fwrite r (trade_file (symbols c ! i)))\<rparr>"
    from wi have "symbol_wf ?x"
      using ring_wf_store [where P = "header_for DATA_TYPE_TRADE 41 symbol"
          and h = "trade_header symbol now" and r = "trades (symbols c ! i)" and x = r]
      by (simp add: symbol_wf_def nm trade_header_for)
    moreover have "symbols (handle_aggTrade r symbol ok fl now c) = (symbols c)[i := ?x]"
      using True by (simp add: handle_aggTrade_known [OF Some])
    ultimately show ?thesis using assms by (auto dest!: set_update_subset_insert [THEN subsetD])
  qed
qed

lemma symbol_wf_handle_kline:
  assumes "\<forall>x \<in> set (symbols c). symbol_wf x"
  shows "\<forall>x \<in> set (symbols (handle_kline k symbol ok fl now c)). symbol_wf x"
proof (cases "find_symbol 0 (symbols c) symbol")
  case None
  with assms show ?thesis by (simp add: handle_kline_def)
next
  case (Some i)
  from find_symbol_Some [OF Some] have i: "i < length (symbols c)"
    and nm: "name (symbols c ! i) = symbol"
    by simp_all
  with assms have wi: "symbol_wf (symbols c ! i)" by simp
  show ?thesis
  proof (cases "ok \<and> k \<noteq> None")
    case False
    show ?thesis
    proof (cases k)
      case None
      with assms Some show ?thesis by (simp add: handle_kline_def)
    next
      case k: (Some r)
      let ?x = "(symbols c ! i)\<lparr>kline_file := fflush fl (kline_file (symbols c ! i))\<rparr>"
      from wi have "symbol_wf ?x" by (simp add: symbol_wf_def)
      moreover have "symbols (handle_kline k symbol ok fl now c) = (symbols c)[i := ?x]"
        using False k Some by (simp add: handle_kline_def Let_def)
      ultimately show ?thesis using assms by (auto dest!: set_update_subset_insert [THEN subsetD])
    qed
  next
    case True
    then obtain r where k: "k = Some r" and ok: ok by auto
    let ?x = "(symbols c ! i)\<lparr>kline_count := kline_count (symbols c ! i) + 1,
        message_count := message_count (symbols c ! i) + 1,
        bytes_processed := bytes_processed (symbols c ! i) + of_nat sizeof_kline_record_t,
        klines := ring_store r (kline_header symbol now) (klines (symbols c ! i)),
        kline_file := fflush fl (fwrite r (kline_file (symbols c ! i)))\<rparr>"
    from wi have "symbol_wf ?x"
      using ring_wf_store [where P = "header_for DATA_TYPE_KLINE 65 symbol"
          and h = "kline_header symbol now" and r = "klines (symbols c ! i)" and x = r]
      by (simp add: symbol_wf_def nm kline_header_for)
    moreover have "symbols (handle_kline k symbol ok fl now c) = (symbols c)[i := ?x]"
      using ok k by (simp add: handle_kline_known [OF Some])
    ultimately show ?thesis using assms by (auto dest!: set_update_subset_insert [THEN subsetD])
  qed
qed

section \<open>A slot after the pass\<close>

lemma pass_state_buffer_size:
  assumes ok: "region_ok (shm_bytes (shm c))" and k: "k \<le> length (symbols c)"
    and n: "length (symbols c) \<le> MAX_SYMBOLS" and cs: "\<forall>x \<in> set (symbols c). counts_ok x"
  shows "rd_size_t (shm_bytes (pass_state now c k)) off_buffer_size
           = rd_size_t (shm_bytes (shm c)) off_buffer_size"
proof (rule rd_size_t_cong)
  fix j :: nat assume "j < 8"
  moreover from ok have "256 \<le> slot_offset (shm_bytes (shm c)) 0"
    by (simp add: region_ok_def sizeof_shared_memory_header_t_def slot_offset_def)
  ultimately show "shm_bytes (pass_state now c k) (off_buffer_size + j)
      = shm_bytes (shm c) (off_buffer_size + j)"
    by (intro pass_state_effect(3) [OF ok k n cs]) (simp add: off_buffer_size_def)
qed

lemma pass_state_step:
  assumes ok: "region_ok (shm_bytes (shm c))" and i: "i < length (symbols c)"
    and n: "length (symbols c) \<le> MAX_SYMBOLS" and cs: "\<forall>x \<in> set (symbols c). counts_ok x"
    and a: "a < slot_offset (shm_bytes (shm c)) i \<or> slot_offset (shm_bytes (shm c)) (Suc i) \<le> a"
  shows "shm_bytes (pass_state now c (Suc i)) a = shm_bytes (pass_state now c i) a"
proof -
  let ?m = "shm_bytes (shm c)"
  from i have ik: "i \<le> length (symbols c)" by simp
  note st = pass_state_effect [OF ok ik n cs, where now = now]
  from i n have im: "i < MAX_SYMBOLS" by simp
  from i cs have ci: "counts_ok (symbols c ! i)" by simp
  note eff = update_symbol_effect [OF st(1) im ci, unfolded st(2)]
  from eff(4) a have "a < slot_offset ?m i \<or>
    slot_offset ?m i + 8 +
      (trades_to_write (symbols c ! i)
         (total_data_size (symbols c ! i) (rd_size_t (shm_bytes (pass_state now c i)) off_buffer_size)) * 73 +
       klines_to_write (symbols c ! i)
         (total_data_size (symbols c ! i) (rd_size_t (shm_bytes (pass_state now c i)) off_buffer_size)) * 97)
      \<le> a"
    by (auto simp: slot_offset_Suc pass_state_buffer_size [OF ok ik n cs])
  from eff(3) [OF this] show ?thesis by (simp only: pass_state_Suc [OF i])
qed

lemma pass_state_later:
  assumes ok: "region_ok (shm_bytes (shm c))"
    and n: "length (symbols c) \<le> MAX_SYMBOLS" and cs: "\<forall>x \<in> set (symbols c). counts_ok x"
    and a: "a < slot_offset (shm_bytes (shm c)) j"
  shows "j \<le> k \<Longrightarrow> k \<le> length (symbols c) \<Longrightarrow>
    shm_bytes (pass_state now c k) a = shm_bytes (pass_state now c j) a"
proof (induction k)
  case 0
  then show ?case by simp
next
  case (Suc k)
  show ?case
  proof (cases "j = Suc k")
    case True
    then show ?thesis by simp
  next
    case False
    with Suc.prems have jk: "j \<le> k" and kn: "k < length (symbols c)" by simp_all
    from a slot_offset_mono [OF jk, of "shm_bytes (shm c)"]
    have "a < slot_offset (shm_bytes (shm c)) k" by simp
    then have "shm_bytes (pass_state now c (Suc k)) a = shm_bytes (pass_state now c k) a"
      by (intro pass_state_step [OF ok kn n cs]) simp
    with Suc.IH [OF jk] kn show ?thesis by simp
  qed
qed

text \<open>
  After an invocation that rewrites the region, the slot of symbol \<open>i\<close> holds the size and the
  frames its iteration stored, and the header is as before.
\<close>

lemma pass_slot_content:
  assumes hs: "shm_header_set c" and gate: "\<not> now - last_update_time c < 1"
    and ok: "region_ok (shm_bytes (shm c))" and n: "length (symbols c) \<le> MAX_SYMBOLS"
    and cs: "\<forall>x \<in> set (symbols c). counts_ok x" and i: "i < length (symbols c)"
  defines "m' \<equiv> shm_bytes (shm (update_shared_memory now c))"
    and "bs \<equiv> rd_size_t (shm_bytes (shm c)) off_buffer_size"
  defines "tot \<equiv> total_data_size (symbols c ! i) bs"
  shows "\<And>a. 16 \<le> a \<Longrightarrow> a < 256 \<Longrightarrow> m' a = shm_bytes (shm c) a"
    and "region_ok m'" and "\<And>j. slot_offset m' j = slot_offset (shm_bytes (shm c)) j"
    and "rd_size_t m' off_buffer_size = bs"
    and "rd_size_t m' (slot_offset m' i) = tot"
    and "load m' (slot_offset m' i + 8)
           (trades_to_write (symbols c ! i) tot * 73 + klines_to_write (symbols c ! i) tot * 97)
         = payload (symbols c ! i) tot"
    and "tot \<le> bs - 8"
    and "trades_to_write (symbols c ! i) tot * 73 + klines_to_write (symbols c ! i) tot * 97 \<le> tot"
proof -
  let ?m = "shm_bytes (shm c)" and ?n = "length (symbols c)"
  let ?x = "symbols c ! i"
  let ?len = "trades_to_write ?x tot * 73 + klines_to_write ?x tot * 97"
  note fin = update_shared_memory_pass [OF hs gate]
  note all = pass_state_effect [OF ok le_refl n cs, where now = now]
  from ok have d: "256 \<le> slot_offset ?m 0"
    by (simp add: region_ok_def sizeof_shared_memory_header_t_def slot_offset_def)
  have high: "m' a = shm_bytes (pass_state now c ?n) a" if "8 \<le> a" for a
    using that by (simp add: m'_def fin store_def memcpy_def off_write_counter_def)
  show low: "m' a = ?m a" if "16 \<le> a" "a < 256" for a
    using that d high [of a] all(3) [of a] by simp
  have dd: "rd_size_t m' off_data_offset = rd_size_t ?m off_data_offset"
    by (rule rd_size_t_cong) (simp add: low off_data_offset_def)
  show bb: "rd_size_t m' off_buffer_size = bs"
    unfolding bs_def by (rule rd_size_t_cong) (simp add: low off_buffer_size_def)
  from ok show "region_ok m'" by (simp add: region_ok_def dd bb bs_def)
  show so: "slot_offset m' j = slot_offset ?m j" for j
    by (simp add: slot_offset_def dd bb bs_def)
  from i have ik: "i \<le> ?n" and sk: "Suc i \<le> ?n" by simp_all
  note st = pass_state_effect [OF ok ik n cs, where now = now]
  from i n have im: "i < MAX_SYMBOLS" by simp
  from i cs have ci: "counts_ok ?x" by simp
  note eff = update_symbol_effect [OF st(1) im ci, unfolded st(2)
      pass_state_buffer_size [OF ok ik n cs], folded bs_def, folded tot_def,
      folded pass_state_Suc [OF i]]
  show "tot \<le> bs - 8" by (rule eff(6))
  show "?len \<le> tot" by (rule eff(5))
  from eff(4) have inslot: "slot_offset ?m i + 8 + ?len \<le> slot_offset ?m (Suc i)"
    by (simp add: slot_offset_Suc bs_def)
  have keep: "m' a = shm_bytes (pass_state now c (Suc i)) a"
    if "slot_offset ?m i \<le> a" "a < slot_offset ?m (Suc i)" for a
  proof -
    from that d slot_offset_mono [of 0 i ?m] have "8 \<le> a" by simp
    then have "m' a = shm_bytes (pass_state now c ?n) a" by (rule high)
    also have "\<dots> = shm_bytes (pass_state now c (Suc i)) a"
      by (rule pass_state_later [OF ok n cs that(2) sk le_refl])
    finally show ?thesis .
  qed
  have "rd_size_t m' (slot_offset ?m i) = rd_size_t (shm_bytes (pass_state now c (Suc i))) (slot_offset ?m i)"
  proof (rule rd_size_t_cong)
    fix k :: nat assume "k < 8"
    with inslot show "m' (slot_offset ?m i + k) = shm_bytes (pass_state now c (Suc i)) (slot_offset ?m i + k)"
      by (intro keep) simp_all
  qed
  with eff(1) show "rd_size_t m' (slot_offset m' i) = tot" by (simp add: so)
  have "load m' (slot_offset ?m i + 8) ?len = load (shm_bytes (pass_state now c (Suc i))) (slot_offset ?m i + 8) ?len"
  proof (rule load_eqI)
    fix k :: nat assume "k < ?len"
    with inslot show "m' (slot_offset ?m i + 8 + k) = shm_bytes (pass_state now c (Suc i)) (slot_offset ?m i + 8 + k)"
      by (intro keep) simp_all
  qed
  with eff(2) show "load m' (slot_offset m' i + 8) ?len = payload ?x tot" by (simp add: so)
qed

section \<open>A symbol without records\<close>

lemma lookup_first:
  assumes dir: "load m (off_symbols 0) 16 = symbol_field nm" and nm: "names_match nm symbol"
    and cnt: "0 < n"
  shows "lookup_symbol m symbol n 0 = Found 0"
proof -
  from nm have l: "length nm < MAX_SYMBOL_LENGTH" and z: "0 \<notin> set nm"
    and t: "map tolower nm = map tolower symbol"
    by (simp_all add: names_match_def)
  from l have l16: "length nm < 16" by (simp add: MAX_SYMBOL_LENGTH_def)
  from dir have s: "load m (off_symbols 0) 16 = nm @ replicate (16 - length nm) 0"
    by (simp add: symbol_field_cstring [OF l])
  have at: "m (off_symbols 0 + k) = (nm @ replicate (16 - length nm) 0) ! k" if "k < 16" for k
    using nth_load [OF that, of m "off_symbols 0"] s by simp
  have 1: "\<forall>k < length nm. m (off_symbols 0 + k) = nm ! k"
    using at l16 by (simp add: nth_append)
  have 2: "m (off_symbols 0 + length nm) = 0"
    using at [OF l16] l16 by (simp add: nth_append)
  note cmp = strcasecmp_mem_match [OF 1 2 z t]
  from names_match_length [OF nm] have "\<not> SHM_SIZE < off_symbols 0 + Suc (length symbol)"
    by (simp add: off_symbols_def SHM_SIZE_def)
  with cnt show ?thesis
    by (subst lookup_symbol.simps) (simp add: cmp Let_def)
qed

lemma display_no_data:
  assumes lk: "lookup_symbol m symbol (rd_size_t m off_symbol_count) 0 = Found i"
    and ok: "region_ok m" and i: "i < MAX_SYMBOLS"
    and size: "rd_size_t m (slot_offset m i) = 0"
  shows "display_symbol_data m symbol max_records = [Rd (slot_offset m i) 8, Data_size 0, No_data]"
proof -
  let ?so = "slot_offset m i"
  note slot = region_ok_slot [OF ok i]
  from slot(2) slot(4) have so_le: "?so + 8 \<le> 67108864" by (simp add: SHM_SIZE_def)
  then have "?so + 8 < 2 ^ 64" by (auto intro: small_lt_pow64)
  then have a8: "size_add ?so sizeof_size_t = ?so + 8"
    by (simp add: size_add_small sizeof_size_t_def)
  from slot(2) slot(4) have c1: "\<not> SHM_SIZE \<le> ?so" and c2: "\<not> SHM_SIZE < ?so + 8" by simp_all
  show ?thesis
    unfolding display_symbol_data_def lk lookup.case Let_def slot(1) a8 size
    using c1 c2 by (simp add: sizeof_size_t_def)
qed

text \<open>
  C8. After an invocation that rewrites the region, the slot of a symbol both of whose buffers
  are empty has the size field 0, and \<open>display_symbol_data\<close> for a symbol resolved to that slot
  reads the size field, prints the size and the line saying that no data is available, and
  returns: it reads no frame, decodes no record and prints none of its warnings. The same
  holds for every region with a well-formed header in which the size field of the slot is 0.
\<close>

theorem empty_symbol_publishes_zero_and_reads_no_data:
  assumes hs: "shm_header_set c" and gate: "\<not> now - last_update_time c < 1"
    and ok: "region_ok (shm_bytes (shm c))" and n: "length (symbols c) \<le> MAX_SYMBOLS"
    and cs: "\<forall>x \<in> set (symbols c). counts_ok x" and i: "i < length (symbols c)"
    and empty: "count (trades (symbols c ! i)) = 0" "count (klines (symbols c ! i)) = 0"
  defines "m' \<equiv> shm_bytes (shm (update_shared_memory now c))"
  shows "rd_size_t m' (slot_offset m' i) = 0 \<and>
         (lookup_symbol m' symbol (rd_size_t m' off_symbol_count) 0 = Found i \<longrightarrow>
            display_symbol_data m' symbol max_records
              = [Rd (slot_offset m' i) 8, Data_size 0, No_data]) \<and>
         (\<forall>m. region_ok m \<and> rd_size_t m (slot_offset m i) = 0 \<and>
              lookup_symbol m symbol (rd_size_t m off_symbol_count) 0 = Found i \<longrightarrow>
            display_symbol_data m symbol max_records
              = [Rd (slot_offset m i) 8, Data_size 0, No_data])"
proof -
  note p = pass_slot_content [OF hs gate ok n cs i, folded m'_def]
  from i n have im: "i < MAX_SYMBOLS" by simp
  from i cs have ci: "counts_ok (symbols c ! i)" by simp
  let ?bs = "rd_size_t (shm_bytes (shm c)) off_buffer_size"
  from region_ok_slot(4) [OF ok im] have bs8: "sizeof_size_t \<le> ?bs" by (simp add: sizeof_size_t_def)
  have "total_data_size (symbols c ! i) ?bs = 0"
    by (simp add: total_data_size_eq [OF ci bs8 rd_size_t_bound] empty)
  with p(5) have z: "rd_size_t m' (slot_offset m' i) = 0" by simp
  have r: "display_symbol_data m symbol max_records = [Rd (slot_offset m i) 8, Data_size 0, No_data]"
    if "region_ok m" "rd_size_t m (slot_offset m i) = 0"
      "lookup_symbol m symbol (rd_size_t m off_symbol_count) 0 = Found i" for m
    using that im by (intro display_no_data)
  from z r [OF p(2) z] r show ?thesis by blast
qed

lemma BTCUSDT_match: "names_match BTCUSDT BTCUSDT"
  by (simp add: names_match_def BTCUSDT_def MAX_SYMBOL_LENGTH_def)

lemma collector0_name: "name (symbols collector0 ! 0) = BTCUSDT"
  by (simp add: collector0_def init_symbol_data_def)

text \<open>The directory of the concrete region after a pass still resolves \<open>BTCUSDT\<close> to slot 0.\<close>

lemma lookup_after_pass:
  assumes c: "shm c = shm collector1" "shm_header_set c" "\<not> now - last_update_time c < 1"
    "length (symbols c) = 1" "\<forall>x \<in> set (symbols c). counts_ok x"
  shows "lookup_symbol (shm_bytes (shm (update_shared_memory now c))) BTCUSDT
           (rd_size_t (shm_bytes (shm (update_shared_memory now c))) off_symbol_count) 0 = Found 0"
proof -
  let ?m' = "shm_bytes (shm (update_shared_memory now c))"
  from c(1) have ok: "region_ok (shm_bytes (shm c))" by (simp add: collector1_facts(2))
  from c(4) have n: "length (symbols c) \<le> MAX_SYMBOLS" and i: "0 < length (symbols c)"
    by (simp_all add: MAX_SYMBOLS_def)
  note low = pass_slot_content(1) [OF c(2,3) ok n c(5) i]
  have n0: "length (symbols collector0) \<le> MAX_SYMBOLS"
    by (simp add: collector0_facts MAX_SYMBOLS_def)
  have "0 < length (symbols collector0)" by (simp add: collector0_facts)
  from init_shared_memory_region(5) [OF n0 this, where ?m0.0 = "\<lambda>a. 0" and now = 1700000000,
      folded collector1_def]
  have d0: "load (shm_bytes (shm collector1)) (off_symbols 0) 16 = symbol_field BTCUSDT"
    by (simp add: collector0_name)
  have "load ?m' (off_symbols 0) 16 = load (shm_bytes (shm c)) (off_symbols 0) 16"
    by (rule load_eqI) (simp add: low off_symbols_def)
  with d0 c(1) have dir: "load ?m' (off_symbols 0) 16 = symbol_field BTCUSDT" by simp
  have "rd_size_t ?m' off_symbol_count = rd_size_t (shm_bytes (shm c)) off_symbol_count"
    by (rule rd_size_t_cong) (simp add: low off_symbol_count_def)
  then have cnt: "rd_size_t ?m' off_symbol_count = 1"
    by (simp add: c(1) collector1_facts(9))
  show ?thesis
    unfolding cnt by (rule lookup_first [OF dir BTCUSDT_match]) simp
qed

theorem empty_symbol_publishes_zero_and_reads_no_data_witness:
  "shm_header_set collector1 \<and> \<not> 1700000001 - last_update_time collector1 < 1 \<and>
   region_ok (shm_bytes (shm collector1)) \<and> length (symbols collector1) \<le> MAX_SYMBOLS \<and>
   list_all counts_ok (symbols collector1) \<and> 0 < length (symbols collector1) \<and>
   count (trades (symbols collector1 ! 0)) = 0 \<and> count (klines (symbols collector1 ! 0)) = 0 \<and>
   lookup_symbol (shm_bytes (shm (update_shared_memory 1700000001 collector1))) BTCUSDT
     (rd_size_t (shm_bytes (shm (update_shared_memory 1700000001 collector1))) off_symbol_count) 0
     = Found 0 \<and>
   rd_size_t (shm_bytes (shm (update_shared_memory 1700000001 collector1))) 256 = 0 \<and>
   display_symbol_data (shm_bytes (shm (update_shared_memory 1700000001 collector1))) BTCUSDT 10
     = [Rd 256 8, Data_size 0, No_data]"
proof -
  have i: "0 < length (symbols collector1)" by (simp add: collector1_facts(3))
  have e: "count (trades (symbols collector1 ! 0)) = 0" "count (klines (symbols collector1 ! 0)) = 0"
    by (simp_all add: collector1_facts(6) collector0_def init_symbol_data_def zero_ring_def)
  have l1: "length (symbols collector1) = 1" by (rule collector1_facts(3))
  note lk = lookup_after_pass [OF refl collector1_facts(1) collector1_gate l1 collector1_facts(4)]
  note t = empty_symbol_publishes_zero_and_reads_no_data [OF collector1_facts(1) collector1_gate
      collector1_facts(2) collector1_n collector1_facts(4) i e,
      where symbol = BTCUSDT and max_records = 10]
  note p = pass_slot_content(3) [OF collector1_facts(1) collector1_gate
      collector1_facts(2) collector1_n collector1_facts(4) i]
  have so: "slot_offset (shm_bytes (shm (update_shared_memory 1700000001 collector1))) 0 = 256"
    unfolding p by (simp add: slot_offset_def collector1_facts(7))
  from t lk have "rd_size_t (shm_bytes (shm (update_shared_memory 1700000001 collector1))) 256 = 0"
    and "display_symbol_data (shm_bytes (shm (update_shared_memory 1700000001 collector1))) BTCUSDT 10
     = [Rd 256 8, Data_size 0, No_data]"
    unfolding so by blast+
  with lk i e collector1_facts(4) show ?thesis
    by (simp add: collector1_facts(1,2) collector1_gate collector1_n list_all_iff)
qed

section \<open>Publishing, then reading\<close>

lemma trades_of_append [simp]: "trades_of (xs @ ys) = trades_of xs @ trades_of ys"
  by (induction xs rule: trades_of.induct) simp_all

lemma klines_of_append [simp]: "klines_of (xs @ ys) = klines_of xs @ klines_of ys"
  by (induction xs rule: klines_of.induct) simp_all

lemma trades_of_frames [simp]:
  "trades_of (frames_items (trade_items symbol base) sz offset rs) = rs"
  "klines_of (frames_items (trade_items symbol base) sz offset rs) = []"
  by (induction rs arbitrary: offset) (simp_all add: trade_items_def)

lemma klines_of_frames [simp]:
  "klines_of (frames_items (kline_items symbol base) sz offset rs) = rs"
  "trades_of (frames_items (kline_items symbol base) sz offset rs) = []"
  by (induction rs arbitrary: offset) (simp_all add: kline_items_def)

text \<open>
  C2. After an invocation that rewrites the region, for a well-formed symbol at index \<open>i\<close>
  with some content, a requested symbol that equals its name up to case and is resolved to
  its slot, and \<open>max_records\<close> at least the number of records held: \<open>display_symbol_data\<close>
  reads the size field and then, frame by frame, decodes the records the pass copied, the
  trades of the chronological walk and then the klines, each equal to the record in the ring
  buffer; when the content fits into the slot these are all records of both buffers and
  nothing else is printed after them.
\<close>

theorem publish_then_read_round_trip:
  assumes hs: "shm_header_set c" and gate: "\<not> now - last_update_time c < 1"
    and ok: "region_ok (shm_bytes (shm c))" and n: "length (symbols c) \<le> MAX_SYMBOLS"
    and wf: "\<forall>x \<in> set (symbols c). symbol_wf x" and i: "i < length (symbols c)"
    and nm: "names_match (name (symbols c ! i)) symbol"
  defines "m' \<equiv> shm_bytes (shm (update_shared_memory now c))"
    and "x \<equiv> symbols c ! i"
    and "bs \<equiv> rd_size_t (shm_bytes (shm c)) off_buffer_size"
    and "so \<equiv> slot_offset (shm_bytes (shm c)) i"
  defines "tot \<equiv> total_data_size x bs"
  defines "ttw \<equiv> trades_to_write x tot" and "ktw \<equiv> klines_to_write x tot"
  assumes lk: "lookup_symbol m' symbol (rd_size_t m' off_symbol_count) 0 = Found i"
    and pos: "0 < tot"
    and mx: "int (count (trades x) + count (klines x)) \<le> max_records"
  shows "display_symbol_data m' symbol max_records =
           Rd so 8 # Data_size tot # Data_for #
           frames_items (trade_items symbol (so + 8)) 73 0 (map snd (chrono (trades x) ttw)) @
           frames_items (kline_items symbol (so + 8)) 97 (ttw * 73) (map snd (chrono (klines x) ktw)) @
           walk m' symbol (so + 8) tot max_records (ttw * 73 + ktw * 97) (int (ttw + ktw)) \<and>
         (count (trades x) * 73 + count (klines x) * 97 \<le> bs - 8 \<longrightarrow>
            ttw = count (trades x) \<and> ktw = count (klines x) \<and>
            walk m' symbol (so + 8) tot max_records (ttw * 73 + ktw * 97) (int (ttw + ktw)) = [] \<and>
            trades_of (display_symbol_data m' symbol max_records)
              = map snd (chrono (trades x) (count (trades x))) \<and>
            klines_of (display_symbol_data m' symbol max_records)
              = map snd (chrono (klines x) (count (klines x))))"
proof -
  from wf have cs: "\<forall>y \<in> set (symbols c). counts_ok y" by (simp add: symbol_wf_counts)
  note p = pass_slot_content [OF hs gate ok n cs i, folded m'_def bs_def x_def,
      folded tot_def, folded ttw_def ktw_def]
  from i n have im: "i < MAX_SYMBOLS" by simp
  from i wf have wx: "symbol_wf x" by (simp add: x_def)
  then have cx: "counts_ok x" by (rule symbol_wf_counts)
  have bs64: "bs < 2 ^ 64" unfolding bs_def by (rule rd_size_t_bound)
  from region_ok_slot(4) [OF ok im] have bs8: "sizeof_size_t \<le> bs"
    by (simp add: sizeof_size_t_def bs_def)
  from p(7) bs64 have tot64: "tot < 2 ^ 64" by simp
  note tf = trades_to_write_facts [OF cx, of tot, folded ttw_def]
  note kf = klines_to_write_facts [OF cx tot64, folded ttw_def ktw_def]
  from wx have wt: "ring_wf (header_for DATA_TYPE_TRADE 41 (name x)) (trades x)"
    and wk: "ring_wf (header_for DATA_TYPE_KLINE 65 (name x)) (klines x)"
    by (simp_all add: symbol_wf_def)
  note th = chrono_headers [OF wt tf(1)]
  note kh = chrono_headers [OF wk kf(1)]
  have so: "slot_offset m' i = so" by (simp add: p(3) so_def)
  from p(6) have content: "load m' (slot_offset m' i + 8)
      (length (chrono (trades x) ttw) * 73 + length (chrono (klines x) ktw) * 97) =
      concat (map (frame_bytes encode_trade) (chrono (trades x) ttw)) @
      concat (map (frame_bytes encode_kline) (chrono (klines x) ktw))"
    by (simp add: payload_def ttw_def ktw_def)
  from p(8) have len: "length (chrono (trades x) ttw) * 73 + length (chrono (klines x) ktw) * 97 \<le> tot"
    by simp
  from mx tf(1) kf(1) have mx': "int (length (chrono (trades x) ttw) + length (chrono (klines x) ktw)) \<le> max_records"
    by simp
  from p(7) have cap: "tot \<le> rd_size_t m' off_buffer_size - 8" by (simp add: p(4))
  from nm have nm': "names_match (name x) symbol" by (simp add: x_def)
  note d = display_slot_frames [OF lk p(2) im p(5) pos cap content th kh nm' len mx',
      unfolded so length_chrono]
  have fitcase: "ttw = count (trades x) \<and> ktw = count (klines x) \<and>
      walk m' symbol (so + 8) tot max_records (ttw * 73 + ktw * 97) (int (ttw + ktw)) = [] \<and>
      trades_of (display_symbol_data m' symbol max_records)
        = map snd (chrono (trades x) (count (trades x))) \<and>
      klines_of (display_symbol_data m' symbol max_records)
        = map snd (chrono (klines x) (count (klines x)))"
    if fit: "count (trades x) * 73 + count (klines x) * 97 \<le> bs - 8"
  proof -
    note f = fits_no_truncation [OF cx bs8 bs64 fit, folded tot_def, folded ttw_def ktw_def]
    from f(1) pos have "0 < count (trades x) + count (klines x)" by (cases "count (trades x)") auto
    then have "ttw + ktw \<noteq> 0" by (simp add: f(2,3))
    then have rc: "int (ttw + ktw) \<noteq> 0" by (simp only: of_nat_eq_0_iff not_False_eq_True)
    have off: "ttw * 73 + ktw * 97 = tot" by (simp add: f)
    have tail: "walk m' symbol (so + 8) tot max_records (ttw * 73 + ktw * 97) (int (ttw + ktw)) = []"
      unfolding off using rc by (subst walk.simps) (simp add: after_loop_def)
    show ?thesis
      unfolding d tail using f(2,3) by simp
  qed
  from d fitcase show ?thesis by blast
qed

lemma collector_3trades_facts:
  "shm collector_3trades = shm collector1" "shm_header_set collector_3trades"
  "last_update_time collector_3trades = 0" "length (symbols collector_3trades) = 1"
  "\<forall>x \<in> set (symbols collector_3trades). symbol_wf x"
  "name (symbols collector_3trades ! 0) = BTCUSDT"
  "count (trades (symbols collector_3trades ! 0)) = 3"
  "count (klines (symbols collector_3trades ! 0)) = 0"
  "map snd (chrono (trades (symbols collector_3trades ! 0)) 3) =
     [example_trade 0x40C3880000000000 1, example_trade 0x40C388C000000000 2,
      example_trade 0x40C387A000000000 3]"
proof -
  let ?t1 = "example_trade 0x40C3880000000000 1" and ?t2 = "example_trade 0x40C388C000000000 2"
    and ?t3 = "example_trade 0x40C387A000000000 3"
  let ?h = "trade_header BTCUSDT 1700000001"
  let ?c2 = "handle_aggTrade ?t2 BTCUSDT True True 1700000001 collector_1trade"
  show "shm collector_3trades = shm collector1" "shm_header_set collector_3trades"
    "last_update_time collector_3trades = 0" "length (symbols collector_3trades) = 1"
    by (simp_all add: collector_3trades_def handle_aggTrade_fields collector_1trade_facts(1,2,3,4))
  have w0: "\<forall>x \<in> set (symbols collector1). symbol_wf x"
    by (simp add: collector1_facts(6) collector0_def symbol_wf_init)
  show "\<forall>x \<in> set (symbols collector_3trades). symbol_wf x"
    unfolding collector_3trades_def collector_1trade_def
    by (intro symbol_wf_handle_aggTrade w0)
  have nms: "map name (symbols collector_3trades) = map name (symbols collector0)"
    by (simp add: collector_3trades_def collector_1trade_def find_symbol_handle_aggTrade
        collector1_facts(6))
  have l3: "length (symbols collector_3trades) = 1"
    by (simp add: collector_3trades_def handle_aggTrade_fields collector_1trade_facts(4))
  from arg_cong [OF nms, where f = "\<lambda>xs. xs ! 0"] l3
  show "name (symbols collector_3trades ! 0) = BTCUSDT"
    by (simp add: collector0_name collector0_facts(1))
  note f0 = find_symbol_collector1
  note f1 = find_symbol_collector_1trade
  have f2: "find_symbol 0 (symbols ?c2) BTCUSDT = Some 0"
    using find_symbol_names [OF find_symbol_handle_aggTrade] f1 by simp
  have l0: "length (symbols collector1) = 1" by (rule collector1_facts(3))
  have l1: "length (symbols collector_1trade) = 1" by (rule collector_1trade_facts(4))
  from l1 have l2: "length (symbols ?c2) = 1" by (simp add: handle_aggTrade_fields)
  have r0: "trades (symbols collector1 ! 0) = zero_ring zero_trade"
    by (simp add: collector1_facts(6) collector0_def init_symbol_data_def)
  have r1: "trades (symbols collector_1trade ! 0) = ring_store ?t1 ?h (zero_ring zero_trade)"
    unfolding collector_1trade_def handle_aggTrade_known [OF f0] using l0 by (simp add: r0)
  have r2: "trades (symbols ?c2 ! 0) = ring_store ?t2 ?h (ring_store ?t1 ?h (zero_ring zero_trade))"
    unfolding handle_aggTrade_known [OF f1] using l1 by (simp add: r1)
  have r3: "trades (symbols collector_3trades ! 0) =
      ring_store ?t3 ?h (ring_store ?t2 ?h (ring_store ?t1 ?h (zero_ring zero_trade)))"
    unfolding collector_3trades_def handle_aggTrade_known [OF f2] using l2 by (simp add: r2)
  have k1: "klines (symbols collector_1trade ! 0) = klines (symbols collector1 ! 0)"
    unfolding collector_1trade_def handle_aggTrade_known [OF f0] using l0 by simp
  have k2: "klines (symbols ?c2 ! 0) = klines (symbols collector_1trade ! 0)"
    unfolding handle_aggTrade_known [OF f1] using l1 by simp
  have k3: "klines (symbols collector_3trades ! 0) = klines (symbols ?c2 ! 0)"
    unfolding collector_3trades_def handle_aggTrade_known [OF f2] using l2 by simp
  show "count (klines (symbols collector_3trades ! 0)) = 0"
    by (simp add: k3 k2 k1 collector1_facts(6) collector0_def init_symbol_data_def zero_ring_def)
  show "count (trades (symbols collector_3trades ! 0)) = 3"
    by (simp add: r3 ring_store_def Let_def zero_ring_def MAX_RECORDS_PER_SYMBOL_def)
  have u: "[0..<3] = [0, Suc 0, Suc (Suc 0)]" by code_simp
  show "map snd (chrono (trades (symbols collector_3trades ! 0)) 3) = [?t1, ?t2, ?t3]"
    by (simp add: r3 chrono_def walk_idx_def start_idx_def ring_store_def Let_def zero_ring_def
        MAX_RECORDS_PER_SYMBOL_def u)
qed

theorem publish_then_read_round_trip_witness:
  "shm_header_set collector_3trades \<and>
   \<not> 1700000002 - last_update_time collector_3trades < 1 \<and>
   region_ok (shm_bytes (shm collector_3trades)) \<and>
   length (symbols collector_3trades) \<le> MAX_SYMBOLS \<and>
   list_all symbol_wf (symbols collector_3trades) \<and> 0 < length (symbols collector_3trades) \<and>
   names_match (name (symbols collector_3trades ! 0)) BTCUSDT \<and>
   lookup_symbol (shm_bytes (shm (update_shared_memory 1700000002 collector_3trades))) BTCUSDT
     (rd_size_t (shm_bytes (shm (update_shared_memory 1700000002 collector_3trades)))
        off_symbol_count) 0 = Found 0 \<and>
   0 < total_data_size (symbols collector_3trades ! 0)
         (rd_size_t (shm_bytes (shm collector_3trades)) off_buffer_size) \<and>
   int (count (trades (symbols collector_3trades ! 0)) +
        count (klines (symbols collector_3trades ! 0))) \<le> 10 \<and>
   count (trades (symbols collector_3trades ! 0)) = 3 \<and>
   map price (trades_of (display_symbol_data
       (shm_bytes (shm (update_shared_memory 1700000002 collector_3trades))) BTCUSDT 10))
     = [0x40C3880000000000, 0x40C388C000000000, 0x40C387A000000000] \<and>
   klines_of (display_symbol_data
       (shm_bytes (shm (update_shared_memory 1700000002 collector_3trades))) BTCUSDT 10) = []"
proof -
  let ?c = collector_3trades
  note f = collector_3trades_facts
  have gate: "\<not> 1700000002 - last_update_time ?c < 1" by (simp add: f(3))
  have ok: "region_ok (shm_bytes (shm ?c))" by (simp add: f(1) collector1_facts(2))
  have n: "length (symbols ?c) \<le> MAX_SYMBOLS" by (simp add: f(4) MAX_SYMBOLS_def)
  have i: "0 < length (symbols ?c)" by (simp add: f(4))
  have nm: "names_match (name (symbols ?c ! 0)) BTCUSDT" by (simp add: f(6) BTCUSDT_match)
  from f(5) have cs: "\<forall>x \<in> set (symbols ?c). counts_ok x" by (simp add: symbol_wf_counts)
  note lk = lookup_after_pass [OF f(1,2) gate f(4) cs]
  have bs: "rd_size_t (shm_bytes (shm ?c)) off_buffer_size = 6710860"
    by (simp add: f(1) collector1_facts(8))
  from cs i have cx: "counts_ok (symbols ?c ! 0)" by simp
  have "sizeof_size_t \<le> (6710860::nat)" "(6710860::nat) < 2 ^ 64"
    "count (trades (symbols ?c ! 0)) * 73 + count (klines (symbols ?c ! 0)) * 97 \<le> 6710860 - 8"
    by (simp_all add: sizeof_size_t_def f(7,8))
  note fit = fits_no_truncation [OF cx this]
  have pos: "0 < total_data_size (symbols ?c ! 0) (rd_size_t (shm_bytes (shm ?c)) off_buffer_size)"
    unfolding bs fit(1) by (simp add: f(7))
  have mx: "int (count (trades (symbols ?c ! 0)) + count (klines (symbols ?c ! 0))) \<le> 10"
    by (simp add: f(7,8))
  have fits: "count (trades (symbols ?c ! 0)) * 73 + count (klines (symbols ?c ! 0)) * 97
      \<le> rd_size_t (shm_bytes (shm ?c)) off_buffer_size - 8"
    by (simp add: bs f(7,8))
  note t = publish_then_read_round_trip [OF f(2) gate ok n f(5) i nm lk pos mx]
  from t fits have tr: "trades_of (display_symbol_data
       (shm_bytes (shm (update_shared_memory 1700000002 ?c))) BTCUSDT 10)
        = map snd (chrono (trades (symbols ?c ! 0)) (count (trades (symbols ?c ! 0))))"
    and kl: "klines_of (display_symbol_data
       (shm_bytes (shm (update_shared_memory 1700000002 ?c))) BTCUSDT 10)
        = map snd (chrono (klines (symbols ?c ! 0)) (count (klines (symbols ?c ! 0))))"
    by blast+
  have p: "map price (trades_of (display_symbol_data
       (shm_bytes (shm (update_shared_memory 1700000002 ?c))) BTCUSDT 10))
     = [0x40C3880000000000, 0x40C388C000000000, 0x40C387A000000000]"
    unfolding tr f(7) f(9) by (simp add: example_trade_def)
  have k: "klines_of (display_symbol_data
       (shm_bytes (shm (update_shared_memory 1700000002 ?c))) BTCUSDT 10) = []"
    unfolding kl f(8) by (simp add: chrono_def)
  from f(5) have "list_all symbol_wf (symbols ?c)" by (simp add: list_all_iff)
  with f(2) gate ok n i nm lk pos mx f(7) p k show ?thesis by blast
qed


section \<open>The size field of a slot\<close>



text \<open>
  The slot size in the header: \<open>init_shared_memory\<close> stores it, and an invocation of
  \<open>update_shared_memory\<close> leaves it as it is; the handlers do not touch the region.
\<close>

lemma shipped_buffer_size:
  assumes "length (symbols c) \<le> MAX_SYMBOLS"
  shows "rd_size_t (shm_bytes (shm (init_shared_memory m0 now c))) off_buffer_size
           = (SHM_SIZE - sizeof_shared_memory_header_t) div MAX_SYMBOLS"
  unfolding init_shared_memory_region(2) [OF assms]
  by (simp add: SHM_SIZE_def sizeof_shared_memory_header_t_def MAX_SYMBOLS_def)

lemma update_shared_memory_buffer_size:
  assumes ok: "region_ok (shm_bytes (shm c))" and n: "length (symbols c) \<le> MAX_SYMBOLS"
    and cs: "\<forall>x \<in> set (symbols c). counts_ok x"
  shows "rd_size_t (shm_bytes (shm (update_shared_memory now c))) off_buffer_size
           = rd_size_t (shm_bytes (shm c)) off_buffer_size"
proof (cases "shm_header_set c")
  case False
  then show ?thesis by (simp add: update_shared_memory_def)
next
  case hs: True
  show ?thesis
  proof (cases "now - last_update_time c < 1")
    case True
    with hs have "shm (update_shared_memory now c)
        = store off_last_update_time (enc64 (word_of_int now)) (shm c)"
      by (simp add: update_shared_memory_def Let_def)
    then show ?thesis by (simp only: store_time_effect(4))
  next
    case False
    note fin = update_shared_memory_pass [OF hs False]
    have "rd_size_t (shm_bytes (shm (update_shared_memory now c))) off_buffer_size
        = rd_size_t (shm_bytes (pass_state now c (length (symbols c)))) off_buffer_size"
      unfolding fin store_def
      by (simp add: rd_size_t_memcpy_other off_write_counter_def off_buffer_size_def enc64_def
          length_le_bytes)
    also have "\<dots> = rd_size_t (shm_bytes (shm c)) off_buffer_size"
      by (rule pass_state_buffer_size [OF ok le_refl n cs])
    finally show ?thesis .
  qed
qed



section \<open>The loop of the reader, one iteration at a time\<close>

lemma walk_step_eq:
  "walk m symbol base data_size max_records offset record_count =
     (case walk_step m symbol base data_size max_records offset record_count of
        Stop xs \<Rightarrow> xs
      | Continue xs offset' record_count' \<Rightarrow>
          xs @ walk m symbol base data_size max_records offset' record_count')"
  apply (subst walk.simps)
  apply (unfold walk_step_def Let_def)
  apply (simp only: if_distrib [of "case_step _ _"] step.case option.case_distrib [of "case_step _ _"] append.simps cong: if_cong option.case_cong)
  done

lemma walk_step_Continue:
  assumes "walk_step m symbol base data_size max_records offset record_count = Continue xs offset' rc'"
  shows "offset < data_size" and "record_count < max_records"
    and "size_add offset sizeof_message_header_t \<le> data_size"
    and "base + offset + 16 + snd (strcasecmp_mem m (base + offset + 16) symbol) \<le> SHM_SIZE"
  using assms
  by (simp_all add: walk_step_def Let_def split: if_splits)

lemma walk_step_small:
  assumes "walk_step m symbol base data_size max_records offset record_count = Continue xs offset' rc'"
  shows "size_add offset sizeof_message_header_t = offset + 32" "offset < SHM_SIZE"
    "offset + 32 \<le> data_size"
proof -
  note c = walk_step_Continue [OF assms]
  note s = walk_offset_small [OF c(4) strcasecmp_mem_reads]
  show "size_add offset sizeof_message_header_t = offset + 32" "offset < SHM_SIZE" by (rule s)+
  from c(3) s(1) show "offset + 32 \<le> data_size" by simp
qed

lemma walk_step_next:
  assumes "walk_step m symbol base data_size max_records offset record_count = Continue xs offset' rc'"
  shows "offset' = align8 (offset + 32) \<or> offset' = offset + 73 \<or> offset' = offset + 97"
proof -
  note s = walk_step_small [OF assms]
  have t: "size_add (offset + 32) 41 = offset + 73" "size_add (offset + 32) 65 = offset + 97"
    using s(2) by (simp_all add: size_add_def SHM_SIZE_def)
  from assms show ?thesis
    unfolding walk_step_def Let_def s(1)
    by (simp add: t sizeof_trade_record_t_def sizeof_kline_record_t_def split: if_splits option.splits)
qed

lemma walk_step_progress:
  assumes "walk_step m symbol base data_size max_records offset record_count = Continue xs offset' rc'"
  shows "SHM_SIZE - offset' < SHM_SIZE - offset" "offset + 32 \<le> offset'"
proof -
  note s = walk_step_small [OF assms]
  from align8_ge [of "offset + 32"] s(2) have "offset + 32 \<le> align8 (offset + 32)"
    by (simp add: SHM_SIZE_def)
  with walk_step_next [OF assms] show "offset + 32 \<le> offset'" by auto
  with s(2) show "SHM_SIZE - offset' < SHM_SIZE - offset" by simp
qed

lemma walk_induct [case_names step]:
  fixes P :: "nat \<Rightarrow> int \<Rightarrow> bool"
  assumes st: "\<And>offset record_count.
     (\<And>xs offset' record_count'.
        walk_step m symbol base data_size max_records offset record_count
          = Continue xs offset' record_count' \<Longrightarrow> P offset' record_count')
     \<Longrightarrow> P offset record_count"
  shows "P offset record_count"
proof (induction offset arbitrary: record_count
    rule: measure_induct_rule [where f = "\<lambda>offset. SHM_SIZE - offset"])
  case (less offset)
  show ?case
  proof (rule st)
    fix xs offset' record_count'
    assume "walk_step m symbol base data_size max_records offset record_count
              = Continue xs offset' record_count'"
    from walk_step_progress(1) [OF this] show "P offset' record_count'" by (rule less)
  qed
qed

lemma after_loop_items:
  "filter is_mismatch (after_loop data_size offset record_count) = []"
  "x \<in> set (after_loop data_size offset record_count) \<Longrightarrow> record_at x = None"
  by (simp_all add: after_loop_def split: if_splits)

lemma walk_step_Stop_items:
  assumes "walk_step m symbol base data_size max_records offset record_count = Stop xs"
  shows "resyncs xs = 0" "\<forall>x \<in> set xs. record_at x = None"
  using assms
  by (auto simp add: walk_step_def Let_def resyncs_def after_loop_items
        split: if_splits option.splits)

lemma walk_step_mismatch:
  assumes "walk_step m symbol base data_size max_records offset record_count = Continue xs offset' rc'"
    and "\<not> fst (strcasecmp_mem m (base + offset + 16) symbol)"
  shows "\<forall>x \<in> set xs. record_at x = None" "resyncs xs = 1" "offset' = align8 (offset + 32)"
    "rc' = record_count"
  using assms(1) unfolding walk_step_def Let_def walk_step_small(1) [OF assms(1)]
  using assms(2)
  by (auto simp add: resyncs_def split: if_splits option.splits)

lemma walk_step_match:
  assumes "walk_step m symbol base data_size max_records offset record_count = Continue xs offset' rc'"
    and "fst (strcasecmp_mem m (base + offset + 16) symbol)"
  shows "resyncs xs = 0" "\<forall>x \<in> set xs. record_at x = None \<or> record_at x = Some offset"
  using assms(1) unfolding walk_step_def Let_def walk_step_small(1) [OF assms(1)]
  using assms(2)
  by (auto simp add: resyncs_def split: if_splits option.splits)

lemma resyncs_append: "resyncs (xs @ ys) = resyncs xs + resyncs ys"
  by (simp add: resyncs_def)

lemma walk_record_matched:
  assumes "\<not> fst (strcasecmp_mem m (base + off + 16) symbol)"
  shows "\<forall>x \<in> set (walk m symbol base data_size max_records offset record_count).
           record_at x \<noteq> Some off"
proof (induction offset record_count rule: walk_induct [where m = m and symbol = symbol
      and base = base and data_size = data_size and max_records = max_records])
  case (step offset record_count)
  show ?case
  proof (cases "walk_step m symbol base data_size max_records offset record_count")
    case (Stop xs)
    from walk_step_Stop_items(2) [OF Stop] show ?thesis
      by (subst walk_step_eq) (simp add: Stop)
  next
    case (Continue xs offset' record_count')
    note ih = step [OF Continue]
    have "\<forall>x \<in> set xs. record_at x \<noteq> Some off"
    proof (cases "fst (strcasecmp_mem m (base + offset + 16) symbol)")
      case True
      with assms have "off \<noteq> offset" by auto
      with walk_step_match(2) [OF Continue True] show ?thesis by fastforce
    next
      case False
      from walk_step_mismatch(1) [OF Continue False] show ?thesis by simp
    qed
    with ih show ?thesis
      by (subst walk_step_eq) (simp add: Continue ball_Un)
  qed
qed

lemma walk_resyncs_bound:
  "32 * resyncs (walk m symbol base data_size max_records offset record_count)
     \<le> data_size - offset"
proof (induction offset record_count rule: walk_induct [where m = m and symbol = symbol
      and base = base and data_size = data_size and max_records = max_records])
  case (step offset record_count)
  show ?case
  proof (cases "walk_step m symbol base data_size max_records offset record_count")
    case (Stop xs)
    from walk_step_Stop_items(1) [OF Stop] show ?thesis
      by (subst walk_step_eq) (simp add: Stop)
  next
    case (Continue xs offset' record_count')
    note ih = step [OF Continue]
    note p = walk_step_progress(2) [OF Continue]
    note d = walk_step_small(3) [OF Continue]
    have one: "resyncs xs \<le> 1"
      using walk_step_match(1) [OF Continue] walk_step_mismatch(2) [OF Continue]
      by (cases "fst (strcasecmp_mem m (base + offset + 16) symbol)") simp_all
    have "walk m symbol base data_size max_records offset record_count
        = xs @ walk m symbol base data_size max_records offset' record_count'"
      by (subst walk_step_eq) (simp add: Continue)
    then have "32 * resyncs (walk m symbol base data_size max_records offset record_count)
        = 32 * resyncs xs + 32 * resyncs (walk m symbol base data_size max_records offset' record_count')"
      by (simp add: resyncs_append)
    also from one ih have "\<dots> \<le> 32 + (data_size - offset')" by simp
    also from p d have "\<dots> \<le> data_size - offset" by simp
    finally show ?thesis .
  qed
qed

lemma walk_mismatch:
  assumes "offset < data_size" "record_count < max_records"
    and "size_add offset sizeof_message_header_t \<le> data_size"
    and "\<not> fst (strcasecmp_mem m (base + offset + 16) symbol)"
  shows "(\<exists>n k s. walk m symbol base data_size max_records offset record_count =
            [Rd (base + offset + 16) n, Scan (base + offset + 16) k, Mismatched_symbol offset s] @
            walk m symbol base data_size max_records
              (align8 (size_add offset sizeof_message_header_t)) record_count \<and>
            offset < align8 (size_add offset sizeof_message_header_t)) \<or>
         (\<exists>pre. walk m symbol base data_size max_records offset record_count = pre @ [Fault] \<and>
            list_all (\<lambda>x. record_at x = None) pre)"
proof (cases "walk_step m symbol base data_size max_records offset record_count")
  case (Stop xs)
  then have "xs = [Rd (base + offset + 16) (snd (strcasecmp_mem m (base + offset + 16) symbol)), Fault]
     \<or> xs = [Rd (base + offset + 16) (snd (strcasecmp_mem m (base + offset + 16) symbol)),
             Scan (base + offset + 16) (SHM_SIZE - (base + offset + 16)), Fault]"
    using assms by (simp add: walk_step_def Let_def split: if_splits option.splits)
  moreover have "walk m symbol base data_size max_records offset record_count = xs"
    by (subst walk_step_eq) (simp add: Stop)
  ultimately have "\<exists>pre. walk m symbol base data_size max_records offset record_count = pre @ [Fault] \<and>
            list_all (\<lambda>x. record_at x = None) pre"
    by auto
  then show ?thesis by (rule disjI2)
next
  case (Continue xs offset' record_count')
  note s = walk_step_small [OF Continue]
  note p = walk_step_progress(2) [OF Continue]
  note mm = walk_step_mismatch(3,4) [OF Continue assms(4)]
  from Continue assms have "\<exists>n k s. xs =
     [Rd (base + offset + 16) n, Scan (base + offset + 16) k, Mismatched_symbol offset s]"
    by (auto simp add: walk_step_def Let_def split: if_splits option.splits)
  moreover have "walk m symbol base data_size max_records offset record_count
      = xs @ walk m symbol base data_size max_records offset' record_count'"
    by (subst walk_step_eq) (simp add: Continue)
  moreover from p have "offset < offset'" by simp
  ultimately have "\<exists>n k s. walk m symbol base data_size max_records offset record_count =
            [Rd (base + offset + 16) n, Scan (base + offset + 16) k, Mismatched_symbol offset s] @
            walk m symbol base data_size max_records
              (align8 (size_add offset sizeof_message_header_t)) record_count \<and>
            offset < align8 (size_add offset sizeof_message_header_t)"
    unfolding s(1) mm [symmetric] by auto
  then show ?thesis by (rule disjI1)
qed

lemma display_cases:
  "(resyncs (display_symbol_data m symbol max_records) = 0 \<and>
    list_all (\<lambda>x. record_at x = None) (display_symbol_data m symbol max_records)) \<or>
   display_symbol_data m symbol max_records =
     [Rd (symbol_offset m symbol) sizeof_size_t, Data_size (rd_size_t m (symbol_offset m symbol)),
      Data_for] @
     walk m symbol (size_add (symbol_offset m symbol) sizeof_size_t)
       (rd_size_t m (symbol_offset m symbol)) max_records 0 0"
  unfolding display_symbol_data_def symbol_offset_def
  by (simp add: Let_def resyncs_def split: lookup.split)


section \<open>A slot with foreign content\<close>

lemma scan_nul_string:
  assumes "\<forall>j < length bs. m (a + j) = bs ! j" "0 \<notin> set bs" "m (a + length bs) = 0"
    and "length bs < n"
  shows "scan_nul m a n = Some (length bs)"
  using assms
proof (induction bs arbitrary: a n)
  case Nil
  then obtain k where "n = Suc k" by (cases n) auto
  with Nil show ?case by simp
next
  case (Cons b bs)
  from Cons.prems(4) obtain k where n: "n = Suc k" and k: "length bs < k" by (cases n) auto
  from Cons.prems(1) have m0: "m a = b" by auto
  from Cons.prems(2) have b0: "b \<noteq> 0" and z: "0 \<notin> set bs" by auto
  have "\<forall>j < length bs. m (Suc a + j) = bs ! j"
    using Cons.prems(1) by (auto simp: nth_Cons split: nat.splits)
  moreover from Cons.prems(3) have "m (Suc a + length bs) = 0" by simp
  ultimately have "scan_nul m (Suc a) k = Some (length bs)" using z k by (intro Cons.IH)
  with m0 b0 n show ?case by simp
qed

lemma cstr_at:
  assumes l: "load m a (Suc (length bs)) = bs @ [0]" and z: "0 \<notin> set bs"
    and a: "a + length bs < SHM_SIZE"
  shows "cstr_len m a = Some (length bs)" "load m a (length bs) = bs"
proof -
  have at: "m (a + k) = (bs @ [0]) ! k" if "k < Suc (length bs)" for k
    using nth_load [OF that, of m a] l by simp
  have 1: "\<forall>j < length bs. m (a + j) = bs ! j" using at by (simp add: nth_append)
  have 2: "m (a + length bs) = 0" using at [of "length bs"] by simp
  from a have "length bs < SHM_SIZE - a" by simp
  from scan_nul_string [OF 1 z 2 this] show "cstr_len m a = Some (length bs)"
    by (simp add: cstr_len_def)
  from load_sub [OF l, of 0 "length bs"] show "load m a (length bs) = bs" by simp
qed

lemma overwritten_slot:
  fixes content :: "byte list"
  assumes len: "length content \<le> 6710852" and pos: "0 < tot" and tot: "tot \<le> 6710852"
    and mr: "0 \<le> max_records"
  defines "m \<equiv> memcpy (shm_bytes (shm collector1)) 256 (enc_size_t tot @ content)"
  shows "display_symbol_data m BTCUSDT max_records =
           [Rd 256 8, Data_size tot, Data_for] @ walk m BTCUSDT 264 tot max_records 0 0"
    and "load m 264 (length content) = content"
    and "symbol_offset m BTCUSDT = 256" and "rd_size_t m 256 = tot"
proof -
  let ?m1 = "shm_bytes (shm collector1)"
  have le: "length (enc_size_t tot) = 8" by (simp add: enc_size_t_def sizeof_size_t_def)
  have f: "rd_size_t m off_data_offset = 256" "rd_size_t m off_buffer_size = 6710860"
    "rd_size_t m off_symbol_count = 1"
    unfolding m_def
    using collector1_facts(7,8,9)
    by (simp_all add: rd_size_t_memcpy_other off_data_offset_def
          off_buffer_size_def off_symbol_count_def)
  then have ok: "region_ok m"
    by (simp add: region_ok_def sizeof_shared_memory_header_t_def sizeof_size_t_def
          MAX_SYMBOLS_def SHM_SIZE_def)
  have so: "slot_offset m 0 = 256" by (simp add: slot_offset_def f)
  have n0: "length (symbols collector0) \<le> MAX_SYMBOLS"
    by (simp add: collector0_facts MAX_SYMBOLS_def)
  have "0 < length (symbols collector0)" by (simp add: collector0_facts)
  from init_shared_memory_region(5) [OF n0 this, where ?m0.0 = "\<lambda>a. 0" and now = 1700000000,
      folded collector1_def]
  have d0: "load ?m1 (off_symbols 0) 16 = symbol_field BTCUSDT"
    by (simp add: collector0_name)
  have "load m (off_symbols 0) 16 = load ?m1 (off_symbols 0) 16"
    unfolding m_def by (rule load_memcpy_disjoint) (simp add: off_symbols_def)
  with d0 have dir: "load m (off_symbols 0) 16 = symbol_field BTCUSDT" by simp
  have lk: "lookup_symbol m BTCUSDT (rd_size_t m off_symbol_count) 0 = Found 0"
    unfolding f by (rule lookup_first [OF dir BTCUSDT_match]) simp
  from tot have t64: "tot < 2 ^ 64" by simp
  have "load m (256 + 0) 8 = take 8 (drop 0 (enc_size_t tot @ content))"
    unfolding m_def by (rule load_memcpy_part) (simp add: le)
  then have "load m 256 8 = enc_size_t tot" by (simp add: le)
  then show sz: "rd_size_t m 256 = tot"
    using t64 by (simp add: rd_size_t_def sizeof_size_t_def enc_size_t_def le_nat_le_bytes)
  have "load m (256 + 8) (length content) = take (length content) (drop 8 (enc_size_t tot @ content))"
    unfolding m_def by (rule load_memcpy_part) (simp add: le)
  then show "load m 264 (length content) = content" by (simp add: le)
  show "symbol_offset m BTCUSDT = 256"
    unfolding symbol_offset_def lk by (simp add: f(1) size_add_def size_mul_def)
  have i: "0 < MAX_SYMBOLS" by (simp add: MAX_SYMBOLS_def)
  have cap: "tot \<le> rd_size_t m off_buffer_size - 8" using tot by (simp add: f)
  have sz0: "rd_size_t m (slot_offset m 0) = tot" by (simp add: so sz)
  show "display_symbol_data m BTCUSDT max_records =
           [Rd 256 8, Data_size tot, Data_for] @ walk m BTCUSDT 264 tot max_records 0 0"
    using display_slot_frames [where tf = "[]" and kf = "[]" and nm = BTCUSDT,
        OF lk ok i sz0 pos cap] mr
    by (simp add: so BTCUSDT_match load_def)
qed

lemma unterminated_region_walk:
  "walk unterminated_region BTCUSDT 264 32 10 0 0 =
     [Rd 280 1, Scan 280 19, Mismatched_symbol 0 (replicate 18 88), No_valid_records]"
proof -
  let ?m = unterminated_region
  let ?content = "replicate 16 0 @ replicate 18 88 @ [0::byte]"
  have m: "?m = memcpy (shm_bytes (shm collector1)) 256 (enc_size_t 32 @ ?content)"
    by (simp add: unterminated_region_def)
  have "load ?m 264 (length ?content) = ?content"
    unfolding m by (rule overwritten_slot(2) [where max_records = 10]) simp_all
  then have l: "load ?m 264 35 = ?content" by simp
  from load_sub [OF l, of 16 19] have s: "load ?m 280 (Suc (length (replicate 18 (88::byte)))) = replicate 18 88 @ [0]"
    by simp
  have "(0::byte) \<notin> set (replicate 18 88)" by simp
  from cstr_at [OF s this] have c: "cstr_len ?m 280 = Some 18" "load ?m 280 18 = replicate 18 88"
    by (simp_all add: SHM_SIZE_def)
  from load_sub [OF l, of 16 1] have "load ?m 280 1 = [88]" by simp
  then have b: "?m 280 = 88" by (simp add: load_def)
  have cmp: "strcasecmp_mem ?m 280 BTCUSDT = (False, 1)"
    by (simp add: BTCUSDT_def b tolower_def)
  have a: "align8 32 = 32" by (simp add: align8_def size_add_def)
  have w2: "walk ?m BTCUSDT 264 32 10 32 0 = [No_valid_records]"
    by (subst walk.simps) (simp add: after_loop_def)
  show ?thesis
    by (subst walk.simps)
       (simp add: Let_def size_add_def sizeof_message_header_t_def cmp c a w2 SHM_SIZE_def)
qed

lemma corrupt_region_walk:
  "strcasecmp_mem corrupt_region 280 BTCUSDT = (False, 1)"
  "walk corrupt_region BTCUSDT 264 73 10 0 0 =
     [Rd 280 1, Scan 280 8, Mismatched_symbol 0 ETHUSDT,
      Rd 312 1, Scan 312 1, Mismatched_symbol 32 [],
      Incomplete_header 64, No_valid_records]"
proof -
  let ?m = corrupt_region
  let ?content = "encode_header (trade_header ETHUSDT 1700000001) @
      encode_trade (example_trade 0x40C3880000000000 1)"
  have len: "length ?content = 73"
    by (simp add: encode_header_def encode_trade_def enc32_def enc64_def length_le_bytes
        MAX_SYMBOL_LENGTH_def)
  have m: "?m = memcpy (shm_bytes (shm collector1)) 256 (enc_size_t 73 @ ?content)"
    by (simp add: corrupt_region_def)
  have "load ?m 264 (length ?content) = ?content"
    unfolding m by (rule overwritten_slot(2) [where max_records = 10]) (simp_all add: len)
  then have l: "load ?m 264 73 = ?content" by (simp only: len)
  have sf: "symbol_field ETHUSDT = ETHUSDT @ replicate 9 0"
    by (simp add: symbol_field_def ETHUSDT_def MAX_SYMBOL_LENGTH_def)
  have le: "length ETHUSDT = 7" by (simp add: ETHUSDT_def)
  from load_sub [OF l, of 16 8] have "load ?m 280 8 = ETHUSDT @ [0]"
    by (simp add: encode_header_def trade_header_def enc32_def enc64_def length_le_bytes sf le
        MAX_SYMBOL_LENGTH_def)
  then have s1: "load ?m 280 (Suc (length ETHUSDT)) = ETHUSDT @ [0]" by (simp add: le)
  have "0 \<notin> set ETHUSDT" by (simp add: ETHUSDT_def)
  from cstr_at [OF s1 this] have c1: "cstr_len ?m 280 = Some 7" "load ?m 280 7 = ETHUSDT"
    by (simp_all add: SHM_SIZE_def le)
  from load_sub [OF s1, of 0 1] have "load ?m 280 1 = [69]" by (simp add: ETHUSDT_def)
  then have b1: "?m 280 = 69" by (simp add: load_def)
  show cmp1: "strcasecmp_mem ?m 280 BTCUSDT = (False, 1)"
    by (simp add: BTCUSDT_def b1 tolower_def)
  have "(8::nat) = Suc 7" by simp
  then have lb: "take (Suc 0) (le_bytes 8 v) = [of_nat (v mod 256)]" for v
    by (simp only: le_bytes.simps take_Suc_Cons take_0)
  from load_sub [OF l, of 48 1] have s2: "load ?m 312 (Suc (length ([]::byte list))) = [] @ [0]"
    by (simp add: encode_header_def encode_trade_def trade_header_def example_trade_def
        enc32_def enc64_def length_le_bytes MAX_SYMBOL_LENGTH_def sf lb)
  from cstr_at [OF s2] have c2: "cstr_len ?m 312 = Some 0" by (simp add: SHM_SIZE_def)
  from s2 have b2: "?m 312 = 0" by (simp add: load_def)
  have cmp2: "strcasecmp_mem ?m 312 BTCUSDT = (False, 1)"
    by (simp add: BTCUSDT_def b2 tolower_def)
  have a: "align8 32 = 32" "align8 64 = 64" by (simp_all add: align8_def size_add_def)
  have w3: "walk ?m BTCUSDT 264 73 10 64 0 = [Incomplete_header 64, No_valid_records]"
    by (subst walk.simps) (simp add: after_loop_def size_add_def sizeof_message_header_t_def)
  have w2: "walk ?m BTCUSDT 264 73 10 32 0 =
      [Rd 312 1, Scan 312 1, Mismatched_symbol 32 [], Incomplete_header 64, No_valid_records]"
    by (subst walk.simps)
       (simp add: Let_def size_add_def sizeof_message_header_t_def cmp2 c2 a w3 SHM_SIZE_def
          load_def)
  show "walk ?m BTCUSDT 264 73 10 0 0 =
     [Rd 280 1, Scan 280 8, Mismatched_symbol 0 ETHUSDT,
      Rd 312 1, Scan 312 1, Mismatched_symbol 32 [],
      Incomplete_header 64, No_valid_records]"
    by (subst walk.simps)
       (simp add: Let_def size_add_def sizeof_message_header_t_def cmp1 c1 a w2 SHM_SIZE_def)
qed


section \<open>The reader on a header with another symbol\<close>

text \<open>
  C6. A frame is a header the loop stands at. When the symbol in the header at offset \<open>off\<close> of
  the slot's data differs from the requested one, up to case, no line of the output shows a
  trade or a kline of the frame at \<open>off\<close>, whatever the region holds. The loop, standing at a
  complete header whose symbol differs, prints the warning and goes on at the next multiple
  of 8 at or after the end of the header, which lies further on, with the count of records
  unchanged; or the process ends on a read outside the mapping. Each such retry moves the
  offset on by at least the 32 bytes of a header, so the number of retries for a slot is at
  most the declared data size divided by 32: there is no counter of retries, the loop gives
  the slot up when the offset has reached the data size.
\<close>

theorem mismatched_frame_never_shown:
  "(\<not> fst (strcasecmp_mem m (size_add (symbol_offset m symbol) sizeof_size_t + off + 16) symbol) \<longrightarrow>
      (\<forall>x \<in> set (display_symbol_data m symbol max_records). record_at x \<noteq> Some off)) \<and>
   32 * resyncs (display_symbol_data m symbol max_records) \<le> rd_size_t m (symbol_offset m symbol) \<and>
   8 dvd align8 (size_add offset sizeof_message_header_t) \<and>
   (offset < data_size \<and> record_count < max_records \<and>
    size_add offset sizeof_message_header_t \<le> data_size \<and>
    \<not> fst (strcasecmp_mem m (base + offset + 16) symbol) \<longrightarrow>
      (\<exists>n k s. walk m symbol base data_size max_records offset record_count =
            [Rd (base + offset + 16) n, Scan (base + offset + 16) k, Mismatched_symbol offset s] @
            walk m symbol base data_size max_records
              (align8 (size_add offset sizeof_message_header_t)) record_count \<and>
            offset < align8 (size_add offset sizeof_message_header_t)) \<or>
      (\<exists>pre. walk m symbol base data_size max_records offset record_count = pre @ [Fault] \<and>
            list_all (\<lambda>x. record_at x = None) pre))"
proof (intro conjI impI)
  let ?d = "display_symbol_data m symbol max_records"
  let ?base = "size_add (symbol_offset m symbol) sizeof_size_t"
  let ?w = "walk m symbol ?base (rd_size_t m (symbol_offset m symbol)) max_records 0 0"
  let ?pre = "[Rd (symbol_offset m symbol) sizeof_size_t,
      Data_size (rd_size_t m (symbol_offset m symbol)), Data_for]"
  note dc = display_cases [of m symbol max_records]
  {
    assume ne: "\<not> fst (strcasecmp_mem m (?base + off + 16) symbol)"
    from dc show "\<forall>x \<in> set ?d. record_at x \<noteq> Some off"
    proof
      assume "resyncs ?d = 0 \<and> list_all (\<lambda>x. record_at x = None) ?d"
      then show ?thesis by (simp add: list_all_iff)
    next
      assume d: "?d = ?pre @ ?w"
      from walk_record_matched [OF ne] show ?thesis unfolding d by (simp add: ball_Un)
    qed
  }
  from dc show "32 * resyncs ?d \<le> rd_size_t m (symbol_offset m symbol)"
  proof
    assume "resyncs ?d = 0 \<and> list_all (\<lambda>x. record_at x = None) ?d"
    then show ?thesis by simp
  next
    assume d: "?d = ?pre @ ?w"
    have "resyncs ?d = resyncs ?w" unfolding d by (simp add: resyncs_def)
    with walk_resyncs_bound [of m symbol ?base "rd_size_t m (symbol_offset m symbol)" max_records 0 0]
    show ?thesis by simp
  qed
  show "8 dvd align8 (size_add offset sizeof_message_header_t)" by (simp add: align8_def)
  {
    assume "offset < data_size \<and> record_count < max_records \<and>
      size_add offset sizeof_message_header_t \<le> data_size \<and>
      \<not> fst (strcasecmp_mem m (base + offset + 16) symbol)"
    then have "offset < data_size" "record_count < max_records"
      "size_add offset sizeof_message_header_t \<le> data_size"
      "\<not> fst (strcasecmp_mem m (base + offset + 16) symbol)"
      by simp_all
    then show "(\<exists>n k s. walk m symbol base data_size max_records offset record_count =
            [Rd (base + offset + 16) n, Scan (base + offset + 16) k, Mismatched_symbol offset s] @
            walk m symbol base data_size max_records
              (align8 (size_add offset sizeof_message_header_t)) record_count \<and>
            offset < align8 (size_add offset sizeof_message_header_t)) \<or>
      (\<exists>pre. walk m symbol base data_size max_records offset record_count = pre @ [Fault] \<and>
            list_all (\<lambda>x. record_at x = None) pre)"
      by (rule walk_mismatch)
  }
qed

lemma corrupt_region_display:
  "display_symbol_data corrupt_region BTCUSDT 10 =
     [Rd 256 8, Data_size 73, Data_for] @ walk corrupt_region BTCUSDT 264 73 10 0 0"
  "symbol_offset corrupt_region BTCUSDT = 256" "rd_size_t corrupt_region 256 = 73"
proof -
  have len: "length (encode_header (trade_header ETHUSDT 1700000001) @
      encode_trade (example_trade 0x40C3880000000000 1)) \<le> 6710852"
    by (simp add: encode_header_def encode_trade_def enc32_def enc64_def length_le_bytes
        MAX_SYMBOL_LENGTH_def)
  have "0 < (73::nat)" "(73::nat) \<le> 6710852" "0 \<le> (10::int)" by simp_all
  note o = overwritten_slot [OF len this, folded corrupt_region_def]
  show "display_symbol_data corrupt_region BTCUSDT 10 =
     [Rd 256 8, Data_size 73, Data_for] @ walk corrupt_region BTCUSDT 264 73 10 0 0"
    "symbol_offset corrupt_region BTCUSDT = 256" "rd_size_t corrupt_region 256 = 73"
    by (rule o(1) o(3) o(4))+
qed

theorem mismatched_frame_never_shown_witness:
  "\<not> fst (strcasecmp_mem corrupt_region
       (size_add (symbol_offset corrupt_region BTCUSDT) sizeof_size_t + 0 + 16) BTCUSDT) \<and>
   list_all (\<lambda>x. record_at x \<noteq> Some 0) (display_symbol_data corrupt_region BTCUSDT 10) \<and>
   32 * resyncs (display_symbol_data corrupt_region BTCUSDT 10) \<le> 73 \<and>
   resyncs (display_symbol_data corrupt_region BTCUSDT 10) = 2 \<and>
   display_symbol_data corrupt_region BTCUSDT 10 =
     [Rd 256 8, Data_size 73, Data_for,
      Rd 280 1, Scan 280 8, Mismatched_symbol 0 ETHUSDT,
      Rd 312 1, Scan 312 1, Mismatched_symbol 32 [],
      Incomplete_header 64, No_valid_records]"
proof -
  note d = corrupt_region_display
  have b: "size_add (symbol_offset corrupt_region BTCUSDT) sizeof_size_t + 0 + 16 = 280"
    by (simp add: d(2) size_add_def sizeof_size_t_def)
  have ne: "\<not> fst (strcasecmp_mem corrupt_region
       (size_add (symbol_offset corrupt_region BTCUSDT) sizeof_size_t + 0 + 16) BTCUSDT)"
    unfolding b by (simp add: corrupt_region_walk(1))
  note t = mismatched_frame_never_shown [where m = corrupt_region and symbol = BTCUSDT
      and max_records = 10 and off = 0 and base = 264 and data_size = 73 and offset = 0
      and record_count = 0]
  from t ne have "\<forall>x \<in> set (display_symbol_data corrupt_region BTCUSDT 10). record_at x \<noteq> Some 0"
    by blast
  then have 1: "list_all (\<lambda>x. record_at x \<noteq> Some 0) (display_symbol_data corrupt_region BTCUSDT 10)"
    by (simp add: list_all_iff)
  from t have "32 * resyncs (display_symbol_data corrupt_region BTCUSDT 10)
      \<le> rd_size_t corrupt_region (symbol_offset corrupt_region BTCUSDT)"
    by blast
  then have 2: "32 * resyncs (display_symbol_data corrupt_region BTCUSDT 10) \<le> 73"
    by (simp only: d(2,3))
  have 3: "display_symbol_data corrupt_region BTCUSDT 10 =
     [Rd 256 8, Data_size 73, Data_for,
      Rd 280 1, Scan 280 8, Mismatched_symbol 0 ETHUSDT,
      Rd 312 1, Scan 312 1, Mismatched_symbol 32 [],
      Incomplete_header 64, No_valid_records]"
    unfolding d(1) corrupt_region_walk(2) by simp
  have 4: "resyncs (display_symbol_data corrupt_region BTCUSDT 10) = 2"
    unfolding 3 by (simp add: resyncs_def)
  from ne 1 2 4 3 show ?thesis by (intro conjI)
qed

section \<open>Reads past the declared data\<close>

lemma walk_step_reads:
  assumes s: "Suc (length symbol) \<le> 16" and d: "base + data_size \<le> SHM_SIZE"
    and st: "walk_step m symbol base data_size max_records offset record_count = Stop xs
       \<or> walk_step m symbol base data_size max_records offset record_count = Continue xs offset' rc'"
  shows "(\<forall>a n. Rd a n \<in> set xs \<longrightarrow> base \<le> a \<and> a + n \<le> base + data_size) \<and>
         (\<forall>a n. Scan a n \<in> set xs \<longrightarrow> base \<le> a \<and> a + 16 \<le> base + data_size) \<and>
         (Fault \<in> set xs \<longrightarrow> (\<exists>a n. Scan a n \<in> set xs))"
proof -
  let ?n = "snd (strcasecmp_mem m (base + offset + 16) symbol)"
  from strcasecmp_mem_le [of m "base + offset + 16" symbol] s have n: "?n \<le> 16" by simp
  have na: "Rd a k \<notin> set (after_loop ds off rc)" "Scan a k \<notin> set (after_loop ds off rc)"
    "Fault \<notin> set (after_loop ds off rc)" for a k ds off rc
    by (simp_all add: after_loop_def)
  show ?thesis
  proof (cases "offset < data_size \<and> record_count < max_records \<and>
      size_add offset sizeof_message_header_t \<le> data_size")
    case False
    with st have "xs = after_loop data_size offset record_count \<or>
        xs = Incomplete_header offset # after_loop data_size offset record_count"
      by (auto simp add: walk_step_def split: if_splits)
    then show ?thesis by (auto simp add: na)
  next
    case True
    with d have o: "offset < SHM_SIZE" by simp
    then have a32: "size_add offset sizeof_message_header_t = offset + 32"
      by (simp add: size_add_def sizeof_message_header_t_def SHM_SIZE_def)
    with True have le: "offset + 32 \<le> data_size" by simp
    from o have t: "size_add (offset + 32) 41 = offset + 73" "size_add (offset + 32) 65 = offset + 97"
      by (simp_all add: size_add_def SHM_SIZE_def)
    from le d n have nf: "\<not> SHM_SIZE < base + offset + 16 + ?n" by simp
    from st True show ?thesis
      unfolding walk_step_def Let_def a32
      using le n d nf
      by (auto simp add: na t sizeof_trade_record_t_def sizeof_kline_record_t_def
            split: if_splits option.splits)
  qed
qed

lemma walk_reads_within:
  assumes s: "Suc (length symbol) \<le> 16" and d: "base + data_size \<le> SHM_SIZE"
  shows "(\<forall>a n. Rd a n \<in> set (walk m symbol base data_size max_records offset record_count)
            \<longrightarrow> base \<le> a \<and> a + n \<le> base + data_size) \<and>
         (\<forall>a n. Scan a n \<in> set (walk m symbol base data_size max_records offset record_count)
            \<longrightarrow> base \<le> a \<and> a + 16 \<le> base + data_size) \<and>
         (Fault \<in> set (walk m symbol base data_size max_records offset record_count) \<longrightarrow>
            (\<exists>a n. Scan a n \<in> set (walk m symbol base data_size max_records offset record_count)))"
proof (induction offset record_count rule: walk_induct [where m = m and symbol = symbol
      and base = base and data_size = data_size and max_records = max_records])
  case (step offset record_count)
  show ?case
  proof (cases "walk_step m symbol base data_size max_records offset record_count")
    case (Stop xs)
    then have w: "walk m symbol base data_size max_records offset record_count = xs"
      by (subst walk_step_eq) simp
    from walk_step_reads [OF s d disjI1, OF Stop] show ?thesis unfolding w .
  next
    case (Continue xs offset' record_count')
    then have w: "walk m symbol base data_size max_records offset record_count =
        xs @ walk m symbol base data_size max_records offset' record_count'"
      by (subst walk_step_eq) simp
    from walk_step_reads [OF s d disjI2, OF Continue] step [OF Continue]
    show ?thesis unfolding w by (simp only: set_append Un_iff) blast
  qed
qed

lemma scan_nul_first:
  assumes "k < n" "m (a + k) = 0"
  shows "\<exists>j \<le> k. scan_nul m a n = Some j"
  using assms
proof (induction n arbitrary: a k)
  case 0
  then show ?case by simp
next
  case (Suc n)
  show ?case
  proof (cases "m a = 0")
    case True
    then show ?thesis by simp
  next
    case False
    with Suc.prems obtain k' where k: "k = Suc k'" by (cases k) auto
    with Suc.prems have "k' < n" "m (Suc a + k') = 0" by simp_all
    from Suc.IH [OF this] obtain j where "j \<le> k'" "scan_nul m (Suc a) n = Some j" by blast
    with False k show ?thesis by simp
  qed
qed

lemma walk_step_scan:
  assumes st: "walk_step m symbol base data_size max_records offset record_count = Stop xs
       \<or> walk_step m symbol base data_size max_records offset record_count = Continue xs offset' rc'"
    and z: "\<exists>k < 16. m (base + offset + 16 + k) = 0" and d: "base + data_size \<le> SHM_SIZE"
  shows "\<forall>a n. Scan a n \<in> set xs \<longrightarrow> n \<le> 16"
proof -
  have na: "Scan a k \<notin> set (after_loop ds off rc)" for a k ds off rc
    by (simp add: after_loop_def)
  show ?thesis
  proof (cases "offset < data_size \<and> record_count < max_records \<and>
      size_add offset sizeof_message_header_t \<le> data_size")
    case False
    with st have "xs = after_loop data_size offset record_count \<or>
        xs = Incomplete_header offset # after_loop data_size offset record_count"
      by (auto simp add: walk_step_def split: if_splits)
    then show ?thesis by (auto simp add: na)
  next
    case True
    with d have o: "offset < SHM_SIZE" by simp
    then have a32: "size_add offset sizeof_message_header_t = offset + 32"
      by (simp add: size_add_def sizeof_message_header_t_def SHM_SIZE_def)
    with True have le: "offset + 32 \<le> data_size" by simp
    from z obtain k where k: "k < 16" "m (base + offset + 16 + k) = 0" by blast
    from le d k(1) have "k < SHM_SIZE - (base + offset + 16)" by simp
    from scan_nul_first [where m = m and a = "base + offset + 16" and k = k, OF this k(2)]
    obtain j where j: "j \<le> k"
      "cstr_len m (base + offset + 16) = Some j"
      by (auto simp add: cstr_len_def)
    from st True show ?thesis
      unfolding walk_step_def Let_def a32
      using j k(1)
      by (auto simp add: na split: if_splits)
  qed
qed

text \<open>
  What the guards of the loop do bound, for a requested symbol of at most 15 characters and a
  slot that ends inside the mapping: every read made by the code of the function, and the
  start of every string that \<open>printf\<close> reads, lies in the declared data; and the process
  faults only in such a string. When every symbol field of the data holds a NUL, the strings
  are read inside their fields and there is no fault.
\<close>

lemma guarded_reads_within_declared_data:
  fixes m :: memory and max_records record_count :: int and offset :: nat
  assumes s: "Suc (length symbol) \<le> 16" and d: "base + data_size \<le> SHM_SIZE"
  defines "w \<equiv> walk m symbol base data_size max_records offset record_count"
  shows "\<forall>a n. Rd a n \<in> set w \<longrightarrow> base \<le> a \<and> a + n \<le> base + data_size"
    and "\<forall>a n. Scan a n \<in> set w \<longrightarrow> base \<le> a \<and> a + 16 \<le> base + data_size"
    and "Fault \<in> set w \<longrightarrow> (\<exists>a n. Scan a n \<in> set w)"
  using walk_reads_within [OF s d, of m max_records offset record_count]
  unfolding w_def by blast+

lemma terminated_symbols_read_within:
  assumes d: "base + data_size \<le> SHM_SIZE"
    and z: "\<forall>off. \<exists>k < 16. m (base + off + 16 + k) = 0"
  shows "\<forall>a n. Scan a n \<in> set (walk m symbol base data_size max_records offset record_count)
           \<longrightarrow> n \<le> 16"
proof (induction offset record_count rule: walk_induct [where m = m and symbol = symbol
      and base = base and data_size = data_size and max_records = max_records])
  case (step offset record_count)
  from z have z': "\<exists>k < 16. m (base + offset + 16 + k) = 0" by blast
  show ?case
  proof (cases "walk_step m symbol base data_size max_records offset record_count")
    case (Stop xs)
    then have w: "walk m symbol base data_size max_records offset record_count = xs"
      by (subst walk_step_eq) simp
    from walk_step_scan [OF disjI1, OF Stop z' d] show ?thesis unfolding w .
  next
    case (Continue xs offset' record_count')
    then have w: "walk m symbol base data_size max_records offset record_count =
        xs @ walk m symbol base data_size max_records offset' record_count'"
      by (subst walk_step_eq) simp
    from walk_step_scan [OF disjI2, OF Continue z' d] step [OF Continue]
    show ?thesis unfolding w by (simp only: set_append Un_iff) blast
  qed
qed

text \<open>
  C9 fails on a slot whose data is one header with a symbol field that has no NUL, followed
  in the region by two more bytes that are not NUL. The declared data size, 32, passes the
  capacity check and the header passes the guard of line 323. The symbol differs from the
  requested one, and \<open>printf\<close> of line 334 reads \<open>header->symbol\<close> as a string: 19 bytes from
  offset 280 of the region, the last of them at offset 298, where the declared data ends at
  offset \<open>264 + 32 = 296\<close>.
\<close>

theorem printf_of_unterminated_symbol_reads_past_data_size:
  "rd_size_t unterminated_region (symbol_offset unterminated_region BTCUSDT) = 32 \<and>
   size_add (symbol_offset unterminated_region BTCUSDT) sizeof_size_t = 264 \<and>
   display_symbol_data unterminated_region BTCUSDT 10 =
     [Rd 256 8, Data_size 32, Data_for,
      Rd 280 1, Scan 280 19, Mismatched_symbol 0 (replicate 18 88), No_valid_records] \<and>
   264 + 32 < (280 :: nat) + 19"
proof -
  have len: "length (replicate 16 0 @ replicate 18 88 @ [0::byte]) \<le> 6710852" by simp
  have "0 < (32::nat)" "(32::nat) \<le> 6710852" "0 \<le> (10::int)" by simp_all
  note o = overwritten_slot [OF len this, folded unterminated_region_def]
  have "display_symbol_data unterminated_region BTCUSDT 10 =
     [Rd 256 8, Data_size 32, Data_for,
      Rd 280 1, Scan 280 19, Mismatched_symbol 0 (replicate 18 88), No_valid_records]"
    unfolding o(1) unterminated_region_walk by simp
  then show ?thesis
    by (simp add: o(3,4) size_add_def sizeof_size_t_def)
qed

end
